theory Spec2Isabelle
  imports Main "HOL-Library.Word" "HOL-Library.List_Lexorder"
begin

section \<open>Text, bytes and files\<close>

text \<open>
  The program is \<^verbatim>\<open>scripts/opencode_ops_kit.py\<close>. Two of its commands are modelled:
  \<^verbatim>\<open>runbook\<close> (the signature matcher) and \<^verbatim>\<open>memory_graph\<close> (the session graph builder).

  A Python \<^verbatim>\<open>str\<close> is a sequence of Unicode code points, so text is a list of naturals;
  the program's own string constants are ASCII and are written as HOL string literals,
  converted with \<open>u\<close>. The order on \<open>str\<close> is the lexicographic order by code point, which is
  Python's order on \<^verbatim>\<open>str\<close>.
\<close>

type_synonym str = "nat list"
type_synonym byte = "8 word"

definition u :: "string \<Rightarrow> str" where
  "u s = map of_char s"

text \<open>
  \<^verbatim>\<open>str.isspace\<close> for one code point; the same predicate decides \<^verbatim>\<open>\s\<close> in a
  \<^verbatim>\<open>str\<close> pattern and what \<^verbatim>\<open>str.strip()\<close> removes.
\<close>

definition is_space :: "nat \<Rightarrow> bool" where
  "is_space c = ((9 \<le> c \<and> c \<le> 13) \<or> (28 \<le> c \<and> c \<le> 32) \<or> c = 133 \<or> c = 160
      \<or> c = 5760 \<or> (8192 \<le> c \<and> c \<le> 8202) \<or> c = 8232 \<or> c = 8233 \<or> c = 8239
      \<or> c = 8287 \<or> c = 12288)"

text \<open>\<^verbatim>\<open>s.strip()\<close>: leading and trailing white space removed.\<close>

definition strip :: "str \<Rightarrow> str" where
  "strip s = rev (dropWhile is_space (rev (dropWhile is_space s)))"

subsection \<open>Reading a file\<close>

text \<open>
  \<^verbatim>\<open>Path.read_text(encoding="utf-8", errors="ignore")\<close>. A directory entry either can be read
  and gives its bytes, or cannot (a directory, no permission) and the read raises
  \<^verbatim>\<open>OSError\<close>. The file is opened in text mode, so the bytes are decoded and then the
  line ends are translated. Decoding takes the well-formed UTF-8 sequence at the head of
  the input when there is one and otherwise skips bytes: the error handler \<^verbatim>\<open>ignore\<close>
  resumes after the offending bytes, all of which but the first are continuation bytes,
  so skipping one byte at a time gives the same text.
\<close>

datatype entry = Readable "byte list" | Unreadable

datatype error = OSError str

definition cont :: "byte \<Rightarrow> bool" where
  "cont b = (0x80 \<le> b \<and> b \<le> 0xBF)"

definition low6 :: "byte \<Rightarrow> nat" where
  "low6 b = unat b mod 64"

fun utf8_next :: "byte list \<Rightarrow> (nat \<times> byte list) option" where
  "utf8_next [] = None"
| "utf8_next (b0 # bs) =
     (if b0 < 0x80 then Some (unat b0, bs)
      else if 0xC2 \<le> b0 \<and> b0 \<le> 0xDF then
        (case bs of
           b1 # r \<Rightarrow> if cont b1 then Some ((unat b0 mod 32) * 64 + low6 b1, r) else None
         | _ \<Rightarrow> None)
      else if 0xE0 \<le> b0 \<and> b0 \<le> 0xEF then
        (case bs of
           b1 # b2 # r \<Rightarrow>
             if cont b1 \<and> cont b2 \<and> (b0 = 0xE0 \<longrightarrow> 0xA0 \<le> b1) \<and> (b0 = 0xED \<longrightarrow> b1 \<le> 0x9F)
             then Some ((unat b0 mod 16) * 4096 + low6 b1 * 64 + low6 b2, r) else None
         | _ \<Rightarrow> None)
      else if 0xF0 \<le> b0 \<and> b0 \<le> 0xF4 then
        (case bs of
           b1 # b2 # b3 # r \<Rightarrow>
             if cont b1 \<and> cont b2 \<and> cont b3 \<and> (b0 = 0xF0 \<longrightarrow> 0x90 \<le> b1)
                \<and> (b0 = 0xF4 \<longrightarrow> b1 \<le> 0x8F)
             then Some ((unat b0 mod 8) * 262144 + low6 b1 * 4096 + low6 b2 * 64 + low6 b3, r)
             else None
         | _ \<Rightarrow> None)
      else None)"

text \<open>\<^verbatim>\<open>bytes.decode("utf-8", errors="strict")\<close>: fails on the first ill-formed sequence.\<close>

function decode_strict :: "byte list \<Rightarrow> str option" where
  "decode_strict bs =
     (if bs = [] then Some []
      else case utf8_next bs of
             None \<Rightarrow> None
           | Some (c, r) \<Rightarrow> map_option ((#) c) (decode_strict r))"
  by pat_completeness auto
termination
proof (relation "measure length")
  fix bs :: "byte list" and x c r
  assume "utf8_next bs = Some x" "(c, r) = x"
  then have "utf8_next bs = Some (c, r)" by simp
  then have "length r < length bs"
    by (cases bs) (auto split: if_splits list.splits)
  then show "(r, bs) \<in> measure length" by simp
qed auto

text \<open>\<^verbatim>\<open>bytes.decode("utf-8", errors="ignore")\<close>: never fails.\<close>

function decode_ignore :: "byte list \<Rightarrow> str" where
  "decode_ignore bs =
     (if bs = [] then []
      else case utf8_next bs of
             None \<Rightarrow> decode_ignore (tl bs)
           | Some (c, r) \<Rightarrow> c # decode_ignore r)"
  by pat_completeness auto
termination
proof (relation "measure length")
  fix bs :: "byte list" and x c r
  assume "utf8_next bs = Some x" "(c, r) = x"
  then have "utf8_next bs = Some (c, r)" by simp
  then have "length r < length bs"
    by (cases bs) (auto split: if_splits list.splits)
  then show "(r, bs) \<in> measure length" by simp
qed auto

text \<open>
  Text mode reads with universal newlines (\<^verbatim>\<open>newline=None\<close>, the default of \<^verbatim>\<open>open\<close>): in
  the decoded text a carriage return followed by a line feed, and a carriage return
  alone, are read as one line feed.
\<close>

fun universal_newlines :: "str \<Rightarrow> str" where
  "universal_newlines [] = []"
| "universal_newlines [c] = [if c = 13 then 10 else c]"
| "universal_newlines (c # d # cs) =
     (if c = 13 \<and> d = 10 then 10 # universal_newlines cs
      else (if c = 13 then 10 else c) # universal_newlines (d # cs))"

definition file_text :: "byte list \<Rightarrow> str" where
  "file_text bs = universal_newlines (decode_ignore bs)"

definition read_text :: "str \<Rightarrow> entry \<Rightarrow> error + str" where
  "read_text path e = (case e of Unreadable \<Rightarrow> Inl (OSError path)
                               | Readable bs \<Rightarrow> Inr (file_text bs))"

section \<open>Regular expressions\<close>

text \<open>
  The part of Python's \<^verbatim>\<open>re\<close> that the program's patterns use: literals, \<^verbatim>\<open>.\<close>, \<^verbatim>\<open>\s\<close>,
  concatenation, \<^verbatim>\<open>|\<close>, the greedy \<^verbatim>\<open>*\<close> and \<^verbatim>\<open>+\<close> and the lazy \<^verbatim>\<open>+?\<close> on a single
  character class, one capturing group, \<^verbatim>\<open>$\<close>, and the flags \<^verbatim>\<open>IGNORECASE\<close> and \<^verbatim>\<open>DOTALL\<close>.
  \<^verbatim>\<open>re\<close> is a backtracking matcher: \<open>rmatch\<close> lists every way of matching at the head of
  the input in the order in which backtracking tries them, so the match that \<^verbatim>\<open>re\<close> finds
  is the head of the list.
\<close>

datatype atom = Lit nat | Dot | Space

datatype rx =
    Atom atom
  | Seq rx rx
  | Alt rx rx
  | Star atom
  | Plus atom
  | PlusLazy atom
  | Group rx
  | Dollar
  | Eps

record flags =
  ignorecase :: bool
  dotall :: bool

text \<open>
  Under \<^verbatim>\<open>IGNORECASE\<close> an ASCII letter of the pattern matches both of its cases and, as
  the documentation of \<^verbatim>\<open>re.IGNORECASE\<close> lists, four further letters: U+0130 and U+0131
  for i, U+017F for s, U+212A for k. The patterns of the program are ASCII.
\<close>

definition case_variants :: "nat \<Rightarrow> nat list" where
  "case_variants p =
     (if 65 \<le> p \<and> p \<le> 90 then [p + 32] else if 97 \<le> p \<and> p \<le> 122 then [p - 32] else [])
     @ (if p = 73 \<or> p = 105 then [304, 305] else [])
     @ (if p = 83 \<or> p = 115 then [383] else [])
     @ (if p = 75 \<or> p = 107 then [8490] else [])"

fun atom_ok :: "flags \<Rightarrow> atom \<Rightarrow> nat \<Rightarrow> bool" where
  "atom_ok f (Lit p) c = (c = p \<or> (ignorecase f \<and> c \<in> set (case_variants p)))"
| "atom_ok f Dot c = (dotall f \<or> c \<noteq> 10)"
| "atom_ok f Space c = is_space c"

text \<open>
  The inputs left after a greedy repetition of one character class, longest run first.
\<close>

fun greedy :: "(nat \<Rightarrow> bool) \<Rightarrow> str \<Rightarrow> str list" where
  "greedy P [] = [[]]"
| "greedy P (c # cs) = (if P c then greedy P cs @ [c # cs] else [c # cs])"

text \<open>
  A matcher state is the text of group 1, when the group has matched, and the input
  that is left. \<^verbatim>\<open>$\<close> without \<^verbatim>\<open>MULTILINE\<close> matches at the end of the text and before a
  newline that ends the text.
\<close>

type_synonym mstate = "str option \<times> str"

fun rmatch :: "flags \<Rightarrow> rx \<Rightarrow> mstate \<Rightarrow> mstate list" where
  "rmatch f (Atom a) (g, s) =
     (case s of [] \<Rightarrow> [] | c # cs \<Rightarrow> if atom_ok f a c then [(g, cs)] else [])"
| "rmatch f (Seq r1 r2) st = concat (map (rmatch f r2) (rmatch f r1 st))"
| "rmatch f (Alt r1 r2) st = rmatch f r1 st @ rmatch f r2 st"
| "rmatch f (Star a) (g, s) = map (Pair g) (greedy (atom_ok f a) s)"
| "rmatch f (Plus a) (g, s) =
     (case s of [] \<Rightarrow> []
      | c # cs \<Rightarrow> if atom_ok f a c then map (Pair g) (greedy (atom_ok f a) cs) else [])"
| "rmatch f (PlusLazy a) (g, s) =
     (case s of [] \<Rightarrow> []
      | c # cs \<Rightarrow> if atom_ok f a c then map (Pair g) (rev (greedy (atom_ok f a) cs)) else [])"
| "rmatch f (Group r) (g, s) =
     map (\<lambda>(g', s'). (Some (take (length s - length s') s), s')) (rmatch f r (g, s))"
| "rmatch f Dollar (g, s) = (if s = [] \<or> s = [10] then [(g, s)] else [])"
| "rmatch f Eps st = [st]"

text \<open>A literal piece of a pattern: its characters in sequence.\<close>

fun lit :: "string \<Rightarrow> rx" where
  "lit [] = Eps"
| "lit (c # cs) = Seq (Atom (Lit (of_char c))) (lit cs)"

text \<open>
  \<^verbatim>\<open>re.search\<close>: the first match at the leftmost position that has one; the positions
  tried include the end of the text.
\<close>

fun search :: "flags \<Rightarrow> rx \<Rightarrow> str \<Rightarrow> mstate option" where
  "search f r s =
     (case rmatch f r (None, s) of
        m # _ \<Rightarrow> Some m
      | [] \<Rightarrow> (case s of [] \<Rightarrow> None | _ # cs \<Rightarrow> search f r cs))"

text \<open>
  \<^verbatim>\<open>findall\<close> for a pattern with one group: the text of the group in each match, the
  matches found left to right without overlap. After a match that consumed nothing the
  scan moves on by one character; the extraction pattern of the program starts with five
  literal characters and never takes that branch.
\<close>

definition group_text :: "str option \<Rightarrow> str" where
  "group_text g = (case g of None \<Rightarrow> [] | Some m \<Rightarrow> m)"

function findall :: "flags \<Rightarrow> rx \<Rightarrow> str \<Rightarrow> str list" where
  "findall f r s =
     (case search f r s of
        None \<Rightarrow> []
      | Some (g, rest) \<Rightarrow>
          if length rest < length s then group_text g # findall f r rest
          else group_text g # (case s of [] \<Rightarrow> [] | _ # cs \<Rightarrow> findall f r cs))"
  by pat_completeness auto
termination
  by (relation "measure (\<lambda>(f, r, s). length s)") auto

declare search.simps [simp del] findall.simps [simp del]
declare decode_strict.simps [simp del] decode_ignore.simps [simp del]

section \<open>The signature matcher: \<^verbatim>\<open>runbook\<close>\<close>

text \<open>
  A rule is the pattern as the source writes it (it is printed), the pattern compiled,
  and the remediation. \<^verbatim>\<open>re.search(pattern, text, re.IGNORECASE | re.DOTALL)\<close> decides
  each rule.
\<close>

type_synonym rule = "string \<times> rx \<times> string"

definition runbook_flags :: flags where
  "runbook_flags = \<lparr>ignorecase = True, dotall = True\<rparr>"

definition rules :: "rule list" where
  "rules =
    [(''fallbackModels is empty|No fallback models configured'',
      Alt (lit ''fallbackModels is empty'') (lit ''No fallback models configured''),
      ''Create project-local rate-limit-fallback.json in .opencode/ and repo root.''),
     (''Model not found: anthropic/haiku'',
      lit ''Model not found: anthropic/haiku'',
      ''Replace with anthropic/claude-haiku-4-5.''),
     (''Cannot find package '' @ [CHR 0x27] @ ''react'' @ [CHR 0x27] @ ''.*zustand'',
      Seq (lit (''Cannot find package '' @ [CHR 0x27] @ ''react'' @ [CHR 0x27]))
          (Seq (Star Dot) (lit ''zustand'')),
      ''Upgrade/remove problematic plugin and retry with clean cache.''),
     (''BunInstallFailedError|EBUSY'',
      Alt (lit ''BunInstallFailedError'') (lit ''EBUSY''),
      ''Close concurrent opencode runs and retry once; lock contention on cache.''),
     (''ENOENT: no such file or directory, mkdir.*opencode-token-monitor'',
      Seq (lit ''ENOENT: no such file or directory, mkdir'')
          (Seq (Star Dot) (lit ''opencode-token-monitor'')),
      ''Disable opencode-token-monitor or switch analytics plugin.'')]"

text \<open>
  The loop over the rules, for any rule list: the state is the counter \<^verbatim>\<open>hits\<close> and the
  lines printed so far.
\<close>

fun scan_rules :: "rule list \<Rightarrow> str \<Rightarrow> nat \<times> str list \<Rightarrow> nat \<times> str list" where
  "scan_rules [] text st = st"
| "scan_rules ((pattern, r, fix) # rs) text (hits, out) =
     (if search runbook_flags r text \<noteq> None
      then scan_rules rs text
             (hits + 1, out @ [u ''MATCH: '' @ u pattern, u ''FIX:   '' @ u fix])
      else scan_rules rs text (hits, out))"

text \<open>
  \<open>runbook log_file e\<close>: \<open>e\<close> is what the path names, \<open>None\<close> when nothing exists there.
  The result is the lines printed and the return value, or the exception of the read.
\<close>

definition runbook :: "str \<Rightarrow> entry option \<Rightarrow> error + (str list \<times> int)" where
  "runbook log_file e =
     (case e of
        None \<Rightarrow> Inr ([u ''FAIL: missing log file '' @ log_file], 1)
      | Some en \<Rightarrow>
          (case read_text log_file en of
             Inl err \<Rightarrow> Inl err
           | Inr text \<Rightarrow>
               (case scan_rules rules text (0, []) of
                  (hits, out) \<Rightarrow>
                    Inr (if hits = 0 then out @ [u ''No known runbook signatures found.'']
                         else out, 0))))"

section \<open>The session graph builder: \<^verbatim>\<open>memory_graph\<close>\<close>

text \<open>
  \<^verbatim>\<open>re.compile(r"ERROR\s+.*message=(.+?)\s+(?:code=|fatal|$)", re.IGNORECASE)\<close>
\<close>

definition err_flags :: flags where
  "err_flags = \<lparr>ignorecase = True, dotall = False\<rparr>"

definition err_re :: rx where
  "err_re =
     Seq (lit ''ERROR'') (Seq (Plus Space) (Seq (Star Dot) (Seq (lit ''message='')
       (Seq (Group (PlusLazy Dot)) (Seq (Plus Space)
         (Alt (lit ''code='') (Alt (lit ''fatal'') Dollar)))))))"

text \<open>
  A directory is its entries by name; the path of the log directory names a directory
  or nothing (\<open>None\<close>), and \<^verbatim>\<open>Path.glob\<close> on a path that is no directory yields no path.
  \<^verbatim>\<open>glob("*.log")\<close> keeps the names that end in \<^verbatim>\<open>.log\<close> (POSIX: case matters, and a
  leading dot is nothing special to \<^verbatim>\<open>pathlib\<close>).
\<close>

type_synonym directory = "(str \<times> entry) list"

definition is_log :: "str \<Rightarrow> bool" where
  "is_log name = (4 \<le> length name \<and> drop (length name - 4) name = u ''.log'')"

definition glob_log :: "directory option \<Rightarrow> (str \<times> entry) list" where
  "glob_log log_dir = (case log_dir of None \<Rightarrow> [] | Some es \<Rightarrow> filter (\<lambda>(n, e). is_log n) es)"

text \<open>\<^verbatim>\<open>xs[-n:]\<close> for a positive \<open>n\<close>.\<close>

definition last_n :: "nat \<Rightarrow> 'a list \<Rightarrow> 'a list" where
  "last_n n xs = drop (length xs - n) xs"

definition selected :: "directory option \<Rightarrow> (str \<times> entry) list" where
  "selected log_dir = last_n 200 (sort_key fst (glob_log log_dir))"

text \<open>
  \<^verbatim>\<open>PurePath.stem\<close> (Python 3.8 to 3.13): the name up to its last dot, when that dot is
  neither the first nor the last character; \<open>rfind\<close> is \<^verbatim>\<open>str.rfind\<close> for one character.
  The paths that \<^verbatim>\<open>sorted\<close> compares lie in one directory, so their order is the order of
  their names.
\<close>

fun rfind :: "nat \<Rightarrow> str \<Rightarrow> int" where
  "rfind c [] = - 1"
| "rfind c (x # xs) =
     (let i = rfind c xs in if 0 \<le> i then i + 1 else if x = c then 0 else - 1)"

definition stem :: "str \<Rightarrow> str" where
  "stem name =
     (let i = rfind 46 name
      in if 0 < i \<and> i < int (length name) - 1 then take (nat i) name else name)"

text \<open>
  Nodes and edges are the dictionaries that the source builds; \<^verbatim>\<open>nodes\<close> is a \<^verbatim>\<open>dict\<close>
  in insertion order, here an association list with \<^verbatim>\<open>setdefault\<close>.
\<close>

record node =
  n_id :: str
  n_type :: string
  n_label :: "str option"

record edge =
  e_from :: str
  e_to :: str
  e_type :: string

record graph =
  g_nodes :: "node list"
  g_edges :: "edge list"

definition setdefault :: "('k \<times> 'v) list \<Rightarrow> 'k \<Rightarrow> 'v \<Rightarrow> ('k \<times> 'v) list" where
  "setdefault d k v = (case map_of d k of None \<Rightarrow> d @ [(k, v)] | Some _ \<Rightarrow> d)"

type_synonym gstate = "(str \<times> node) list \<times> edge list"

definition session_node :: "str \<Rightarrow> node" where
  "session_node sid = \<lparr>n_id = sid, n_type = ''session'', n_label = None\<rparr>"

definition norm_key :: "str \<Rightarrow> str" where
  "norm_key m = take 200 (strip m)"

definition error_id :: "str \<Rightarrow> str" where
  "error_id k = u ''err:'' @ k"

definition error_node :: "str \<Rightarrow> node" where
  "error_node k = \<lparr>n_id = error_id k, n_type = ''error'', n_label = Some k\<rparr>"

definition has_error :: "str \<Rightarrow> str \<Rightarrow> edge" where
  "has_error sid eid = \<lparr>e_from = sid, e_to = eid, e_type = ''has_error''\<rparr>"

text \<open>The inner loop, over the captures of one file.\<close>

fun add_errors :: "str \<Rightarrow> str list \<Rightarrow> gstate \<Rightarrow> gstate" where
  "add_errors sid [] st = st"
| "add_errors sid (m # ms) (ns, es) =
     (let k = norm_key m; eid = error_id k
      in add_errors sid ms (setdefault ns eid (error_node k), es @ [has_error sid eid]))"

text \<open>The outer loop, over the selected files; a read that raises ends the run.\<close>

fun process_files :: "(str \<times> entry) list \<Rightarrow> gstate \<Rightarrow> error + gstate" where
  "process_files [] st = Inr st"
| "process_files ((name, e) # ps) (ns, es) =
     (case read_text name e of
        Inl err \<Rightarrow> Inl err
      | Inr txt \<Rightarrow>
          (let sid = stem name
           in process_files ps
                (add_errors sid (findall err_flags err_re txt)
                   (setdefault ns sid (session_node sid), es))))"

text \<open>
  \<open>memory_graph log_dir\<close>: the graph that is serialised to the output file, with the
  return value 0, or the exception of a read. Creating and writing the output file is
  left out.
\<close>

definition memory_graph :: "directory option \<Rightarrow> error + (graph \<times> int)" where
  "memory_graph log_dir =
     (case process_files (selected log_dir) ([], []) of
        Inl err \<Rightarrow> Inl err
      | Inr (ns, es) \<Rightarrow> Inr (\<lparr>g_nodes = map snd ns, g_edges = es\<rparr>, 0))"

section \<open>Vocabulary of the properties\<close>

text \<open>
  \<open>lit_ok f p w\<close>: the text \<open>w\<close> is the literal \<open>p\<close> as the flags \<open>f\<close> read it, character by
  character.
\<close>

definition lit_ok :: "flags \<Rightarrow> string \<Rightarrow> str \<Rightarrow> bool" where
  "lit_ok f p w = list_all2 (\<lambda>c x. atom_ok f (Lit (of_char c)) x) p w"

text \<open>Whether a rule fires on a text, and the two lines printed when it does.\<close>

definition matches_text :: "str \<Rightarrow> rule \<Rightarrow> bool" where
  "matches_text text rl = (case rl of (pattern, r, fix) \<Rightarrow> search runbook_flags r text \<noteq> None)"

definition report :: "rule \<Rightarrow> str list" where
  "report rl = (case rl of (pattern, r, fix) \<Rightarrow> [u ''MATCH: '' @ u pattern, u ''FIX:   '' @ u fix])"

text \<open>The second rule of the table.\<close>

definition haiku_rule :: rule where
  "haiku_rule = rules ! 1"

text \<open>The bytes of an ASCII text, for writing down files.\<close>

definition ascii :: "string \<Rightarrow> byte list" where
  "ascii s = map of_char s"

text \<open>
  What the extraction pattern captures in a file, the edges these captures give, and the
  captures of a list of files in the order of the scan.
\<close>

definition captures :: "entry \<Rightarrow> str list" where
  "captures e = (case e of Readable bs \<Rightarrow> findall err_flags err_re (file_text bs)
                         | Unreadable \<Rightarrow> [])"

definition file_edges :: "str \<times> entry \<Rightarrow> edge list" where
  "file_edges p = map (\<lambda>m. has_error (stem (fst p)) (error_id (norm_key m))) (captures (snd p))"

definition all_captures :: "(str \<times> entry) list \<Rightarrow> str list" where
  "all_captures ps = concat (map (\<lambda>p. captures (snd p)) ps)"

text \<open>One turn of the outer loop, for a file that was read.\<close>

definition file_step :: "str \<Rightarrow> str list \<Rightarrow> gstate \<Rightarrow> gstate" where
  "file_step sid ms st = add_errors sid ms (setdefault (fst st) sid (session_node sid), snd st)"

text \<open>
  Invariants of the node dictionary: keys are distinct and every node is stored under
  its own id; relative to a set \<open>S\<close> of session ids, a key in \<open>S\<close> holds the session node
  and a key outside \<open>S\<close> holds an error node.
\<close>

definition keyed :: "(str \<times> node) list \<Rightarrow> bool" where
  "keyed ns = (distinct (map fst ns) \<and> list_all (\<lambda>(k, v). n_id v = k) ns)"

definition node_ok :: "str set \<Rightarrow> str \<times> node \<Rightarrow> bool" where
  "node_ok S kv = ((fst kv \<in> S \<and> snd kv = session_node (fst kv))
     \<or> (fst kv \<notin> S \<and> (\<exists>key. fst kv = error_id key \<and> snd kv = error_node key)))"

text \<open>
  A small log directory for instances: two logs with the same error message, listed out
  of order, and a file that is no log; and the graph that the builder makes of it.
\<close>

definition example_dir :: "directory option" where
  "example_dir = Some
     [(u ''b.log'', Readable (ascii ''ERROR 12:00 service=llm message=disk full code=E1'' @ [10])),
      (u ''notes.txt'', Unreadable),
      (u ''a.log'', Readable (ascii ''INFO start'' @ [10] @ ascii ''ERROR 11:00 message=disk full'' @ [10]))]"

definition example_graph :: graph where
  "example_graph =
     \<lparr>g_nodes = [session_node (u ''a''), error_node (u ''disk full''), session_node (u ''b'')],
      g_edges = [has_error (u ''a'') (u ''err:disk full''), has_error (u ''b'') (u ''err:disk full'')]\<rparr>"

text \<open>A directory whose first log holds an error and whose second log cannot be read.\<close>

definition broken_dir :: "directory option" where
  "broken_dir = Some
     [(u ''a.log'', Readable (ascii ''ERROR x message=disk full code=E1'')),
      (u ''b.log'', Unreadable)]"

text \<open>
  A directory of 202 logs \<^verbatim>\<open>a.log\<close>, \<^verbatim>\<open>aa.log\<close>, \<^verbatim>\<open>aaa.log\<close> and so on, listed from the
  longest name down: \<^verbatim>\<open>a.log\<close> cannot be read, \<^verbatim>\<open>aa.log\<close> holds an error, and the 200 others
  are empty.
\<close>

definition big_name :: "nat \<Rightarrow> str" where
  "big_name i = replicate (Suc i) 97 @ u ''.log''"

definition big_entry :: "nat \<Rightarrow> entry" where
  "big_entry i = (if i = 0 then Unreadable
                  else if i = 1 then Readable (ascii ''ERROR 09:00 message=old code=E0'')
                  else Readable [])"

definition big_dir :: "directory option" where
  "big_dir = Some (map (\<lambda>i. (big_name i, big_entry i)) (rev [0..<202]))"








section \<open>Facts about the regular-expression matcher\<close>

lemma greedy_iff: "s' \<in> set (greedy P s) \<longleftrightarrow> (\<exists>w. s = w @ s' \<and> list_all P w)"
proof (induction s)
  case Nil
  then show ?case by auto
next
  case (Cons c cs)
  show ?case
  proof
    assume "s' \<in> set (greedy P (c # cs))"
    then consider "s' = c # cs" | "P c" "s' \<in> set (greedy P cs)"
      by (auto split: if_splits)
    then show "\<exists>w. c # cs = w @ s' \<and> list_all P w"
    proof cases
      case 1
      then show ?thesis by (intro exI [of _ "[]"]) simp
    next
      case 2
      then obtain w where "cs = w @ s'" "list_all P w" using Cons.IH by blast
      with 2 show ?thesis by (intro exI [of _ "c # w"]) simp
    qed
  next
    assume "\<exists>w. c # cs = w @ s' \<and> list_all P w"
    then obtain w where w: "c # cs = w @ s'" "list_all P w" by blast
    show "s' \<in> set (greedy P (c # cs))"
    proof (cases w)
      case Nil
      with w show ?thesis by auto
    next
      case (Cons x w')
      with w have "P c" "cs = w' @ s'" "list_all P w'" by auto
      then show ?thesis using Cons.IH by auto
    qed
  qed
qed

lemma rmatch_lit_iff:
  "(g', s') \<in> set (rmatch f (lit p) (g, s)) \<longleftrightarrow> g' = g \<and> (\<exists>w. s = w @ s' \<and> lit_ok f p w)"
proof (induction p arbitrary: s)
  case Nil
  then show ?case by (auto simp: lit_ok_def)
next
  case (Cons c cs)
  show ?case
  proof
    assume "(g', s') \<in> set (rmatch f (lit (c # cs)) (g, s))"
    then obtain x xs where s: "s = x # xs" and ok: "atom_ok f (Lit (of_char c)) x"
      and rest: "(g', s') \<in> set (rmatch f (lit cs) (g, xs))"
      by (auto split: list.splits if_splits)
    from rest Cons.IH obtain w where "g' = g" "xs = w @ s'" "lit_ok f cs w" by blast
    with s ok show "g' = g \<and> (\<exists>w. s = w @ s' \<and> lit_ok f (c # cs) w)"
      by (intro conjI exI [of _ "x # w"]) (simp_all add: lit_ok_def)
  next
    assume "g' = g \<and> (\<exists>w. s = w @ s' \<and> lit_ok f (c # cs) w)"
    then obtain w where g: "g' = g" and w: "s = w @ s'" "lit_ok f (c # cs) w" by blast
    then obtain x w' where "w = x # w'" "atom_ok f (Lit (of_char c)) x" "lit_ok f cs w'"
      by (auto simp: lit_ok_def list_all2_Cons1)
    with g w Cons.IH [of "w' @ s'"] show "(g', s') \<in> set (rmatch f (lit (c # cs)) (g, s))"
      by auto
  qed
qed


lemma search_None_iff:
  "search f r s = None \<longleftrightarrow> (\<forall>pre t. s = pre @ t \<longrightarrow> rmatch f r (None, t) = [])"
proof (induction s)
  case Nil
  then show ?case by (auto simp: search.simps [of f r "[]"] split: list.splits)
next
  case (Cons c cs)
  have "(\<forall>pre t. c # cs = pre @ t \<longrightarrow> rmatch f r (None, t) = [])
        \<longleftrightarrow> rmatch f r (None, c # cs) = [] \<and> (\<forall>pre t. cs = pre @ t \<longrightarrow> rmatch f r (None, t) = [])"
    by (auto simp: Cons_eq_append_conv)
  with Cons.IH show ?case
    by (simp add: search.simps [of f r "c # cs"] split: list.splits)
qed




lemma search_found:
  assumes "rmatch f r (None, t) \<noteq> []"
  shows "search f r (pre @ t) \<noteq> None"
  using assms search_None_iff [of f r "pre @ t"] by blast

lemma lit_ok_refl: "lit_ok f p (u p)"
  by (induction p) (simp_all add: lit_ok_def u_def)

lemma search_lit: "search f (lit p) (pre @ u p @ post) \<noteq> None"
proof -
  have "(None, post) \<in> set (rmatch f (lit p) (None, u p @ post))"
    by (simp add: rmatch_lit_iff) (use lit_ok_refl in blast)
  then have "rmatch f (lit p) (None, u p @ post) \<noteq> []" by auto
  then show ?thesis by (rule search_found)
qed

section \<open>The signature matcher\<close>

lemma scan_rules_acc:
  "scan_rules R T (h, out) =
     (h + length (filter (matches_text T) R),
      out @ concat (map report (filter (matches_text T) R)))"
proof (induction R arbitrary: h out)
  case Nil
  then show ?case by simp
next
  case (Cons rl R)
  obtain pattern r fx where rl: "rl = (pattern, r, fx)" by (cases rl) auto
  show ?case
    by (simp add: rl Cons.IH matches_text_def report_def)
qed

lemma haiku_rule_eq:
  "haiku_rule = (''Model not found: anthropic/haiku'',
      lit ''Model not found: anthropic/haiku'',
      ''Replace with anthropic/claude-haiku-4-5.'')"
  by (simp add: haiku_rule_def rules_def)

text \<open>
  Claim C5. For every rule list \<open>R\<close> and text \<open>T\<close> the loop counts and prints exactly the
  rules of \<open>R\<close> that fire on \<open>T\<close>, in the order of \<open>R\<close>: whether a rule fires depends on
  the rule and the text alone, not on the rules before it. \<^verbatim>\<open>runbook\<close> runs that loop on
  its table and on the text read from the file.
\<close>

theorem runbook_order_preserving:
  "scan_rules R T (0, []) =
     (length (filter (matches_text T) R), concat (map report (filter (matches_text T) R)))
   \<and> runbook log_file (Some (Readable bs)) =
       Inr (let fired = filter (matches_text (file_text bs)) rules
            in if fired = [] then [u ''No known runbook signatures found.'']
               else concat (map report fired), 0)"
  by (simp add: scan_rules_acc runbook_def read_text_def Let_def)

theorem runbook_order_preserving_witness:
  "scan_rules rules (u ''EBUSY, then: model not found: Anthropic/haiku'') (0, []) =
     (2, [u ''MATCH: Model not found: anthropic/haiku'',
          u ''FIX:   Replace with anthropic/claude-haiku-4-5.'',
          u ''MATCH: BunInstallFailedError|EBUSY'',
          u ''FIX:   Close concurrent opencode runs and retry once; lock contention on cache.''])"
proof -
  have fired: "filter (matches_text (u ''EBUSY, then: model not found: Anthropic/haiku'')) rules
      = [rules ! 1, rules ! 3]"
    by code_simp
  have "concat (map report [rules ! 1, rules ! 3]) =
     [u ''MATCH: Model not found: anthropic/haiku'',
          u ''FIX:   Replace with anthropic/claude-haiku-4-5.'',
          u ''MATCH: BunInstallFailedError|EBUSY'',
          u ''FIX:   Close concurrent opencode runs and retry once; lock contention on cache.'']"
    by (simp add: rules_def report_def u_def)
  with fired show ?thesis
    using runbook_order_preserving
      [of rules "u ''EBUSY, then: model not found: Anthropic/haiku''", THEN conjunct1]
    by simp
qed

text \<open>
  Claim C2, as the code has it. The pattern \<^verbatim>\<open>Model not found: anthropic/haiku\<close> has no
  \<^verbatim>\<open>.\<close>, so \<^verbatim>\<open>DOTALL\<close> changes nothing for it: a text that holds the pattern text
  unbroken, anywhere among any number of lines, gives exactly one match with the
  remediation of the rule.
\<close>

theorem haiku_unbroken_one_match:
  "scan_rules [haiku_rule] (pre @ u ''Model not found: anthropic/haiku'' @ post) (0, []) =
     (1, [u ''MATCH: Model not found: anthropic/haiku'',
          u ''FIX:   Replace with anthropic/claude-haiku-4-5.''])"
  unfolding haiku_rule_eq
  using search_lit [of runbook_flags "''Model not found: anthropic/haiku''" pre post]
  by (simp add: u_def)

theorem haiku_unbroken_one_match_witness:
  "scan_rules [haiku_rule]
     (u ''INFO start'' @ [10] @ u ''Model not found: anthropic/haiku'' @ [10] @ u ''INFO end'')
     (0, []) =
     (1, [u ''MATCH: Model not found: anthropic/haiku'',
          u ''FIX:   Replace with anthropic/claude-haiku-4-5.''])"
  using haiku_unbroken_one_match [of "u ''INFO start'' @ [10]" "[10] @ u ''INFO end''"]
  by simp

text \<open>
  Claim C2 as stated fails: with a newline inside the pattern text (put after the space
  that follows the colon, or in place of that space) the rule does not fire, alone or in
  the table of \<^verbatim>\<open>runbook\<close>.
\<close>

theorem haiku_split_no_match:
  "scan_rules [haiku_rule] (u ''Model not found: '' @ [10] @ u ''anthropic/haiku'') (0, [])
     = (0, [])
   \<and> scan_rules [haiku_rule] (u ''Model not found:'' @ [10] @ u ''anthropic/haiku'') (0, [])
     = (0, [])
   \<and> scan_rules rules (u ''Model not found:'' @ [10] @ u ''anthropic/haiku'') (0, [])
     = (0, [])"
  by code_simp

section \<open>The session graph builder\<close>

lemma setdefault_if: "setdefault d k v = (if k \<in> fst ` set d then d else d @ [(k, v)])"
  by (cases "map_of d k") (auto simp: setdefault_def map_of_eq_None_iff [symmetric])

lemma setdefault_keys: "fst ` set (setdefault d k v) = insert k (fst ` set d)"
  by (auto simp: setdefault_if)

lemma setdefault_mem:
  "kv \<in> set (setdefault d k v) \<longleftrightarrow> kv \<in> set d \<or> (k \<notin> fst ` set d \<and> kv = (k, v))"
  by (auto simp: setdefault_if)

lemma setdefault_keyed:
  "keyed ns \<Longrightarrow> n_id v = k \<Longrightarrow> keyed (setdefault ns k v)"
  by (auto simp: keyed_def setdefault_if)

lemma add_errors_edges:
  "snd (add_errors sid ms (ns, es)) = es @ map (\<lambda>m. has_error sid (error_id (norm_key m))) ms"
  by (induction ms arbitrary: ns es) (simp_all add: Let_def)

lemma add_errors_keys:
  "fst ` set (fst (add_errors sid ms (ns, es))) = fst ` set ns \<union> (\<lambda>m. error_id (norm_key m)) ` set ms"
  by (induction ms arbitrary: ns es) (auto simp: Let_def setdefault_keys)

lemma add_errors_keyed:
  "keyed ns \<Longrightarrow> keyed (fst (add_errors sid ms (ns, es)))"
  by (induction ms arbitrary: ns es) (simp_all add: Let_def setdefault_keyed error_node_def)

lemma process_files_Cons:
  "process_files (p # ps) st = Inr st' \<longleftrightarrow>
     snd p \<noteq> Unreadable \<and> process_files ps (file_step (stem (fst p)) (captures (snd p)) st) = Inr st'"
proof -
  obtain name e ns es where "p = (name, e)" "st = (ns, es)" by (cases p, cases st) auto
  then show ?thesis
    by (cases e) (simp_all add: read_text_def Let_def file_step_def captures_def)
qed

lemma file_step_edges:
  "snd (file_step (stem (fst p)) (captures (snd p)) st) = snd st @ file_edges p"
  by (cases st) (simp add: file_step_def add_errors_edges file_edges_def)

lemma file_step_keys:
  "fst ` set (fst (file_step sid ms st)) =
     fst ` set (fst st) \<union> {sid} \<union> (\<lambda>m. error_id (norm_key m)) ` set ms"
  by (cases st) (auto simp: file_step_def add_errors_keys setdefault_keys)

lemma file_step_keyed: "keyed (fst st) \<Longrightarrow> keyed (fst (file_step sid ms st))"
  by (cases st) (simp add: file_step_def add_errors_keyed setdefault_keyed session_node_def)

lemma process_files_readable:
  "process_files ps st = Inr st' \<Longrightarrow> \<forall>p \<in> set ps. snd p \<noteq> Unreadable"
proof (induction ps arbitrary: st)
  case Nil
  then show ?case by simp
next
  case (Cons p ps)
  from Cons.prems have here: "snd p \<noteq> Unreadable"
    and "process_files ps (file_step (stem (fst p)) (captures (snd p)) st) = Inr st'"
    by (simp_all add: process_files_Cons)
  from Cons.IH [OF this(2)] here show ?case by simp
qed

lemma process_files_edges:
  "process_files ps st = Inr st' \<Longrightarrow> snd st' = snd st @ concat (map file_edges ps)"
proof (induction ps arbitrary: st)
  case Nil
  then show ?case by (cases st) simp
next
  case (Cons p ps)
  from Cons.prems have "process_files ps (file_step (stem (fst p)) (captures (snd p)) st) = Inr st'"
    by (simp add: process_files_Cons)
  from Cons.IH [OF this] show ?case by (simp add: file_step_edges)
qed

lemma process_files_keys:
  "process_files ps st = Inr st' \<Longrightarrow>
   fst ` set (fst st') = fst ` set (fst st) \<union> stem ` fst ` set ps
           \<union> (\<lambda>m. error_id (norm_key m)) ` (\<Union>p \<in> set ps. set (captures (snd p)))"
proof (induction ps arbitrary: st)
  case Nil
  then show ?case by (cases st) simp
next
  case (Cons p ps)
  from Cons.prems have "process_files ps (file_step (stem (fst p)) (captures (snd p)) st) = Inr st'"
    by (simp add: process_files_Cons)
  from Cons.IH [OF this] show ?case
    by (simp add: file_step_keys) blast
qed

lemma process_files_keyed:
  "process_files ps st = Inr st' \<Longrightarrow> keyed (fst st) \<Longrightarrow> keyed (fst st')"
proof (induction ps arbitrary: st)
  case Nil
  then show ?case by (cases st) simp
next
  case (Cons p ps)
  from Cons.prems have "process_files ps (file_step (stem (fst p)) (captures (snd p)) st) = Inr st'"
    by (simp add: process_files_Cons)
  from Cons.IH [OF this] Cons.prems(2) show ?case by (simp add: file_step_keyed)
qed

lemma process_files_total:
  "\<forall>p \<in> set ps. snd p \<noteq> Unreadable \<Longrightarrow> \<exists>st'. process_files ps st = Inr st'"
  by (induction ps arbitrary: st) (auto simp: process_files_Cons)

lemma memory_graph_Inr:
  "memory_graph d = Inr (g, rc) \<longleftrightarrow>
     rc = 0 \<and> (\<exists>ns. process_files (selected d) ([], []) = Inr (ns, g_edges g) \<and> g_nodes g = map snd ns)"
  by (cases g) (auto simp: memory_graph_def split: sum.splits)

lemma keyed_ids: "keyed ns \<Longrightarrow> map n_id (map snd ns) = map fst ns"
  by (induction ns) (auto simp: keyed_def)

lemma setdefault_node_ok:
  "\<forall>kv \<in> set ns. node_ok S kv \<Longrightarrow> node_ok S (k, v) \<Longrightarrow> \<forall>kv \<in> set (setdefault ns k v). node_ok S kv"
  by (auto simp: setdefault_if)

lemma add_errors_node_ok:
  assumes "\<And>key. error_id key \<notin> S"
  shows "\<forall>kv \<in> set ns. node_ok S kv \<Longrightarrow> \<forall>kv \<in> set (fst (add_errors sid ms (ns, es))). node_ok S kv"
proof (induction ms arbitrary: ns es)
  case Nil
  then show ?case by simp
next
  case (Cons m ms)
  have "node_ok S (error_id (norm_key m), error_node (norm_key m))"
    using assms by (auto simp: node_ok_def)
  with Cons.prems have "\<forall>kv \<in> set (setdefault ns (error_id (norm_key m)) (error_node (norm_key m))). node_ok S kv"
    by (rule setdefault_node_ok)
  from Cons.IH [OF this] show ?case by (simp add: Let_def)
qed

lemma file_step_node_ok:
  assumes "\<And>key. error_id key \<notin> S" "sid \<in> S" "\<forall>kv \<in> set (fst st). node_ok S kv"
  shows "\<forall>kv \<in> set (fst (file_step sid ms st)). node_ok S kv"
proof -
  have "node_ok S (sid, session_node sid)" using assms(2) by (simp add: node_ok_def)
  with assms(3) have "\<forall>kv \<in> set (setdefault (fst st) sid (session_node sid)). node_ok S kv"
    by (rule setdefault_node_ok)
  from add_errors_node_ok [of S, OF assms(1) this] show ?thesis
    by (simp add: file_step_def)
qed

lemma process_files_node_ok:
  assumes "\<And>key. error_id key \<notin> S"
  shows "process_files ps st = Inr st' \<Longrightarrow> stem ` fst ` set ps \<subseteq> S \<Longrightarrow>
     \<forall>kv \<in> set (fst st). node_ok S kv \<Longrightarrow> \<forall>kv \<in> set (fst st'). node_ok S kv"
proof (induction ps arbitrary: st)
  case Nil
  then show ?case by (cases st) simp
next
  case (Cons p ps)
  from Cons.prems(1) have run: "process_files ps (file_step (stem (fst p)) (captures (snd p)) st) = Inr st'"
    by (simp add: process_files_Cons)
  have "\<forall>kv \<in> set (fst (file_step (stem (fst p)) (captures (snd p)) st)). node_ok S kv"
    using Cons.prems(2,3) by (intro file_step_node_ok assms) auto
  with Cons.IH [OF run] Cons.prems(2) show ?case by simp
qed

lemma error_id_inj: "error_id a = error_id b \<longleftrightarrow> a = b"
  by (simp add: error_id_def)

lemma error_id_take: "take 4 (error_id k) = u ''err:''"
  by (simp add: error_id_def u_def)

lemma filter_unique:
  "distinct (map f xs) \<Longrightarrow> x \<in> set xs \<Longrightarrow> filter (\<lambda>v. f v = f x) xs = [x]"
proof (induction xs)
  case Nil
  then show ?case by simp
next
  case (Cons y ys)
  show ?case
  proof (cases "x = y")
    case True
    with Cons.prems(1) have "filter (\<lambda>v. f v = f x) ys = []"
      by (auto simp: filter_empty_conv image_iff)
    with True show ?thesis by simp
  next
    case False
    with Cons show ?thesis by auto
  qed
qed

lemma run_facts:
  assumes "memory_graph d = Inr (g, rc)"
  obtains ns where "process_files (selected d) ([], []) = Inr (ns, g_edges g)"
    "g_nodes g = map snd ns" "keyed ns" "map n_id (g_nodes g) = map fst ns"
    "g_edges g = concat (map file_edges (selected d))"
    "fst ` set ns = stem ` fst ` set (selected d)
           \<union> (\<lambda>m. error_id (norm_key m)) ` set (all_captures (selected d))"
proof -
  from assms obtain ns where run: "process_files (selected d) ([], []) = Inr (ns, g_edges g)"
    and nodes: "g_nodes g = map snd ns" by (auto simp: memory_graph_Inr)
  have k: "keyed ns" using process_files_keyed [OF run] by (simp add: keyed_def)
  show thesis
  proof (rule that [OF run nodes k])
    show "map n_id (g_nodes g) = map fst ns" using keyed_ids [OF k] nodes by simp
    show "g_edges g = concat (map file_edges (selected d))"
      using process_files_edges [OF run] by simp
    show "fst ` set ns = stem ` fst ` set (selected d)
           \<union> (\<lambda>m. error_id (norm_key m)) ` set (all_captures (selected d))"
      using process_files_keys [OF run] by (simp add: all_captures_def)
  qed
qed

lemma no_collision_nodes:
  assumes run: "memory_graph d = Inr (g, rc)"
    and H: "\<forall>p \<in> set (selected d). take 4 (stem (fst p)) \<noteq> u ''err:''"
  shows "\<forall>p \<in> set (selected d). session_node (stem (fst p)) \<in> set (g_nodes g)"
    and "\<forall>m \<in> set (all_captures (selected d)). error_node (norm_key m) \<in> set (g_nodes g)"
    and "\<forall>v \<in> set (g_nodes g). (\<exists>sid. v = session_node sid) \<or> (\<exists>k. v = error_node k)"
proof -
  define S where "S = stem ` fst ` set (selected d)"
  have noerr: "error_id key \<notin> S" for key
    using H error_id_take [of key] by (auto simp: S_def)
  obtain ns where
    pf: "process_files (selected d) ([], []) = Inr (ns, g_edges g)"
    and nodes: "g_nodes g = map snd ns" and k: "keyed ns"
    and ids: "map n_id (g_nodes g) = map fst ns"
    and edges: "g_edges g = concat (map file_edges (selected d))"
    and keys: "fst ` set ns = stem ` fst ` set (selected d)
           \<union> (\<lambda>m. error_id (norm_key m)) ` set (all_captures (selected d))"
    by (rule run_facts [OF run])
  have ok: "\<forall>kv \<in> set ns. node_ok S kv"
    using process_files_node_ok [of S, OF noerr pf] by (simp add: S_def)
  have sess: "session_node sid \<in> set (g_nodes g)" if "sid \<in> S" for sid
  proof -
    from that keys have "sid \<in> fst ` set ns" by (simp add: S_def)
    then obtain v where "(sid, v) \<in> set ns" by force
    with ok that have "(sid, session_node sid) \<in> set ns" by (auto simp: node_ok_def)
    then show ?thesis unfolding nodes by force
  qed
  show "\<forall>p \<in> set (selected d). session_node (stem (fst p)) \<in> set (g_nodes g)"
  proof
    fix p assume "p \<in> set (selected d)"
    then have "stem (fst p) \<in> S" unfolding S_def by blast
    then show "session_node (stem (fst p)) \<in> set (g_nodes g)" by (rule sess)
  qed
  show "\<forall>m \<in> set (all_captures (selected d)). error_node (norm_key m) \<in> set (g_nodes g)"
  proof
    fix m assume "m \<in> set (all_captures (selected d))"
    with keys have "error_id (norm_key m) \<in> fst ` set ns" by simp
    then obtain v where in_ns: "(error_id (norm_key m), v) \<in> set ns" by force
    with ok noerr have "v = error_node (norm_key m)"
      by (fastforce simp: node_ok_def error_id_inj)
    with in_ns show "error_node (norm_key m) \<in> set (g_nodes g)" unfolding nodes by force
  qed
  show "\<forall>v \<in> set (g_nodes g). (\<exists>sid. v = session_node sid) \<or> (\<exists>k. v = error_node k)"
    using ok unfolding nodes by (fastforce simp: node_ok_def)
qed

lemma node_ids_distinct:
  assumes "memory_graph d = Inr (g, rc)"
  shows "distinct (map n_id (g_nodes g))"
proof -
  obtain ns where
    pf: "process_files (selected d) ([], []) = Inr (ns, g_edges g)"
    and nodes: "g_nodes g = map snd ns" and k: "keyed ns"
    and ids: "map n_id (g_nodes g) = map fst ns"
    and edges: "g_edges g = concat (map file_edges (selected d))"
    and keys: "fst ` set ns = stem ` fst ` set (selected d)
           \<union> (\<lambda>m. error_id (norm_key m)) ` set (all_captures (selected d))"
    by (rule run_facts [OF assms])
  from k ids show ?thesis by (simp add: keyed_def)
qed

lemma edge_cases:
  assumes "memory_graph d = Inr (g, rc)" "e \<in> set (g_edges g)"
  obtains p m where "p \<in> set (selected d)" "m \<in> set (captures (snd p))"
    "e = has_error (stem (fst p)) (error_id (norm_key m))"
proof -
  obtain ns where
    pf: "process_files (selected d) ([], []) = Inr (ns, g_edges g)"
    and nodes: "g_nodes g = map snd ns" and k: "keyed ns"
    and ids: "map n_id (g_nodes g) = map fst ns"
    and edges: "g_edges g = concat (map file_edges (selected d))"
    and keys: "fst ` set ns = stem ` fst ` set (selected d)
           \<union> (\<lambda>m. error_id (norm_key m)) ` set (all_captures (selected d))"
    by (rule run_facts [OF assms(1)])
  from assms(2) edges obtain p m where "p \<in> set (selected d)" "m \<in> set (captures (snd p))"
    "e = has_error (stem (fst p)) (error_id (norm_key m))"
    by (auto simp: file_edges_def)
  then show thesis by (rule that)
qed

lemma count_edges_to:
  "length (filter (\<lambda>e. e_to e = error_id k) (concat (map file_edges ps)))
     = length (filter (\<lambda>m. norm_key m = k) (all_captures ps))"
proof (induction ps)
  case Nil
  then show ?case by (simp add: all_captures_def)
next
  case (Cons p ps)
  have "length (filter (\<lambda>e. e_to e = error_id k) (file_edges p))
      = length (filter (\<lambda>m. norm_key m = k) (captures (snd p)))"
    by (simp add: file_edges_def filter_map o_def has_error_def error_id_inj)
  with Cons show ?case by (simp add: all_captures_def)
qed

text \<open>The equations that evaluate the model on a given input.\<close>

lemmas ev = u_def ascii_def err_re_def err_flags_def is_space_def case_variants_def search.simps
  findall.simps group_text_def decode_ignore.simps file_text_def read_text_def memory_graph_def selected_def
  last_n_def glob_log_def is_log_def stem_def Let_def setdefault_def norm_key_def strip_def
  error_id_def

lemma example_selected:
  "selected example_dir =
     [(u ''a.log'', Readable (ascii ''INFO start'' @ [10] @ ascii ''ERROR 11:00 message=disk full'' @ [10])),
      (u ''b.log'', Readable (ascii ''ERROR 12:00 service=llm message=disk full code=E1'' @ [10]))]"
  by (simp add: example_dir_def ev)

lemma example_captures:
  "all_captures (selected example_dir) = [u ''disk full'', u ''disk full'']"
  unfolding example_selected by (simp add: all_captures_def captures_def ev)

lemma example_run: "memory_graph example_dir = Inr (example_graph, 0)"
  by (simp add: example_dir_def example_graph_def ev)

lemma example_no_collision:
  "\<forall>p \<in> set (selected example_dir). take 4 (stem (fst p)) \<noteq> u ''err:''"
  unfolding example_selected by (simp add: ev)

text \<open>
  Claim C10. Whenever the builder returns a graph, every edge of it starts and ends at the
  id of a node of the node list: the dictionary key of a node is its id, the session key
  is set before the edges of the file are appended, and the key of an error before the
  edge that points to it.
\<close>

theorem edges_intact:
  assumes "memory_graph d = Inr (g, rc)"
  shows "\<forall>e \<in> set (g_edges g). e_from e \<in> n_id ` set (g_nodes g) \<and> e_to e \<in> n_id ` set (g_nodes g)"
proof -
  from assms obtain ns where run: "process_files (selected d) ([], []) = Inr (ns, g_edges g)"
    and nodes: "g_nodes g = map snd ns" by (auto simp: memory_graph_Inr)
  have "keyed ns" using process_files_keyed [OF run] by (simp add: keyed_def)
  then have ids: "n_id ` set (g_nodes g) = fst ` set ns"
    using keyed_ids [of ns] nodes by (metis list.set_map)
  have edges: "g_edges g = concat (map file_edges (selected d))"
    using process_files_edges [OF run] by simp
  have keys: "fst ` set ns = stem ` fst ` set (selected d)
           \<union> (\<lambda>m. error_id (norm_key m)) ` (\<Union>p \<in> set (selected d). set (captures (snd p)))"
    using process_files_keys [OF run] by simp
  show ?thesis
    unfolding ids keys edges by (auto simp: file_edges_def has_error_def)
qed

theorem edges_intact_witness:
  "memory_graph example_dir = Inr (example_graph, 0)
   \<and> set (map e_from (g_edges example_graph)) \<union> set (map e_to (g_edges example_graph))
       \<subseteq> set (map n_id (g_nodes example_graph))"
  using edges_intact [OF example_run] example_run by auto

text \<open>
  Claim C9 at a failing input. The ids of sessions and of errors share one dictionary,
  and only the error ids carry a prefix: a log named \<^verbatim>\<open>err:x.log\<close> has the session id
  \<^verbatim>\<open>err:x\<close>, which is also the id of the error \<^verbatim>\<open>x\<close>. Here \<^verbatim>\<open>a.log\<close> is read first and
  registers the error node \<^verbatim>\<open>err:x\<close>; the session of \<^verbatim>\<open>err:x.log\<close> is then never
  registered, and its edge starts at an error node.
\<close>

theorem collision_not_bipartite:
  "memory_graph (Some [(u ''err:x.log'', Readable (ascii ''ERROR a message=y code=1'')),
     (u ''a.log'', Readable (ascii ''ERROR a message=x code=1''))])
   = Inr (\<lparr>g_nodes = [session_node (u ''a''), error_node (u ''x''), error_node (u ''y'')],
           g_edges = [has_error (u ''a'') (u ''err:x''), has_error (u ''err:x'') (u ''err:y'')]\<rparr>, 0)"
  by (simp add: ev)

text \<open>
  Claim C1 at a failing input. In the log \<^verbatim>\<open>err:x.log\<close> the error \<^verbatim>\<open>x\<close> occurs twice:
  the key \<^verbatim>\<open>err:x\<close> is taken by the session node, so no error node is registered for
  the message; both edges are appended and loop on the session node.
\<close>

theorem collision_no_error_node:
  "memory_graph (Some [(u ''err:x.log'',
      Readable (ascii ''ERROR a message=x code=1'' @ [10] @ ascii ''ERROR b message=x code=2'' @ [10]))])
   = Inr (\<lparr>g_nodes = [session_node (u ''err:x'')],
           g_edges = [has_error (u ''err:x'') (u ''err:x''), has_error (u ''err:x'') (u ''err:x'')]\<rparr>, 0)"
  by (simp add: ev)

text \<open>
  Where no selected log has a stem that starts with \<^verbatim>\<open>err:\<close>, the graph is bipartite:
  every edge starts at the session node of its id and ends at the error node of its id,
  every node is a session node or an error node, and no two nodes share an id.
\<close>

theorem graph_bipartite:
  assumes run: "memory_graph d = Inr (g, rc)"
    and H: "\<forall>p \<in> set (selected d). take 4 (stem (fst p)) \<noteq> u ''err:''"
  shows "(\<forall>e \<in> set (g_edges g). session_node (e_from e) \<in> set (g_nodes g)
            \<and> (\<exists>k. e_to e = error_id k \<and> error_node k \<in> set (g_nodes g)))
       \<and> (\<forall>v \<in> set (g_nodes g). (\<exists>sid. v = session_node sid) \<or> (\<exists>k. v = error_node k))
       \<and> distinct (map n_id (g_nodes g))"
proof -
  have "session_node (e_from e) \<in> set (g_nodes g)
            \<and> (\<exists>k. e_to e = error_id k \<and> error_node k \<in> set (g_nodes g))"
    if "e \<in> set (g_edges g)" for e
  proof -
    from edge_cases [OF run that] obtain p m where p: "p \<in> set (selected d)"
      and m: "m \<in> set (captures (snd p))"
      and e: "e = has_error (stem (fst p)) (error_id (norm_key m))" by blast
    from p m have "m \<in> set (all_captures (selected d))" by (auto simp: all_captures_def)
    with no_collision_nodes(1,2) [OF run H] p show ?thesis
      by (auto simp: e has_error_def)
  qed
  with no_collision_nodes(3) [OF run H] node_ids_distinct [OF run] show ?thesis by blast
qed

theorem graph_bipartite_witness:
  "memory_graph example_dir = Inr (example_graph, 0)
   \<and> list_all (\<lambda>p. take 4 (stem (fst p)) \<noteq> u ''err:'') (selected example_dir)
   \<and> list_all (\<lambda>e. session_node (e_from e) \<in> set (g_nodes example_graph)) (g_edges example_graph)
   \<and> distinct (map n_id (g_nodes example_graph))"
  using graph_bipartite [OF example_run example_no_collision] example_run example_no_collision
  by (simp add: list_all_iff)

text \<open>
  Where no selected log has a stem that starts with \<^verbatim>\<open>err:\<close>, a message that was captured
  has exactly one node, its error node, however often it occurs, and one edge for each
  occurrence of its normalised text in the selected logs.
\<close>

theorem error_node_dedup:
  assumes run: "memory_graph d = Inr (g, rc)"
    and H: "\<forall>p \<in> set (selected d). take 4 (stem (fst p)) \<noteq> u ''err:''"
    and m: "m \<in> set (all_captures (selected d))"
  shows "filter (\<lambda>v. n_id v = error_id (norm_key m)) (g_nodes g) = [error_node (norm_key m)]
       \<and> length (filter (\<lambda>e. e_to e = error_id (norm_key m)) (g_edges g))
           = length (filter (\<lambda>m'. norm_key m' = norm_key m) (all_captures (selected d)))"
proof -
  have "error_node (norm_key m) \<in> set (g_nodes g)"
    using no_collision_nodes(2) [OF run H] m by blast
  from filter_unique [OF node_ids_distinct [OF run] this]
  have "filter (\<lambda>v. n_id v = error_id (norm_key m)) (g_nodes g) = [error_node (norm_key m)]"
    by (simp add: error_node_def)
  moreover have "g_edges g = concat (map file_edges (selected d))"
    by (rule run_facts [OF run])
  ultimately show ?thesis by (simp add: count_edges_to)
qed

theorem error_node_dedup_witness:
  "memory_graph example_dir = Inr (example_graph, 0)
   \<and> u ''disk full'' \<in> set (all_captures (selected example_dir))
   \<and> filter (\<lambda>v. n_id v = error_id (norm_key (u ''disk full''))) (g_nodes example_graph)
       = [error_node (norm_key (u ''disk full''))]
   \<and> length (filter (\<lambda>e. e_to e = error_id (norm_key (u ''disk full''))) (g_edges example_graph)) = 2"
proof -
  have m: "u ''disk full'' \<in> set (all_captures (selected example_dir))"
    by (simp add: example_captures)
  have two: "length (filter (\<lambda>m'. norm_key m' = norm_key (u ''disk full''))
      (all_captures (selected example_dir))) = 2"
    by (simp add: example_captures)
  from error_node_dedup [OF example_run example_no_collision m] example_run m two
  show ?thesis by simp
qed

section \<open>Selection of the log files\<close>

lemma glob_log_set:
  "set (glob_log (Some es)) = {p \<in> set es. is_log (fst p)}" "glob_log None = []"
  by (auto simp: glob_log_def)

lemma selected_split:
  "sort_key fst (glob_log d) = take (length (glob_log d) - 200) (sort_key fst (glob_log d)) @ selected d"
  by (simp add: selected_def last_n_def)

lemma selected_sorted: "sorted (map fst (selected d))"
  unfolding selected_def last_n_def drop_map [symmetric]
  by (intro sorted_wrt_drop) simp

lemma selected_length: "length (selected d) = min 200 (length (glob_log d))"
  by (simp add: selected_def last_n_def)

lemma selected_all: "length (glob_log d) \<le> 200 \<Longrightarrow> selected d = sort_key fst (glob_log d)"
  by (simp add: selected_def last_n_def)

lemma older_before:
  assumes "q \<in> set (take (length (glob_log d) - 200) (sort_key fst (glob_log d)))"
    and "p \<in> set (selected d)"
  shows "fst q \<le> fst p"
proof -
  have "sorted (map fst (sort_key fst (glob_log d)))" by simp
  then have "sorted (map fst (take (length (glob_log d) - 200) (sort_key fst (glob_log d)))
      @ map fst (selected d))"
    by (subst (asm) selected_split) simp
  with assms show ?thesis by (auto simp: sorted_append)
qed

lemma run_graph:
  assumes "memory_graph d = Inr (g, rc)"
  shows "g_edges g = concat (map file_edges (selected d))"
    and "n_id ` set (g_nodes g) = stem ` fst ` set (selected d)
           \<union> (\<lambda>m. error_id (norm_key m)) ` set (all_captures (selected d))"
proof -
  obtain ns where
    pf: "process_files (selected d) ([], []) = Inr (ns, g_edges g)"
    and nodes: "g_nodes g = map snd ns" and k: "keyed ns"
    and ids: "map n_id (g_nodes g) = map fst ns"
    and edges: "g_edges g = concat (map file_edges (selected d))"
    and keys: "fst ` set ns = stem ` fst ` set (selected d)
           \<union> (\<lambda>m. error_id (norm_key m)) ` set (all_captures (selected d))"
    by (rule run_facts [OF assms])
  show "g_edges g = concat (map file_edges (selected d))" by (rule edges)
  have "n_id ` set (g_nodes g) = set (map n_id (g_nodes g))" by simp
  also have "\<dots> = fst ` set ns" unfolding ids by simp
  finally show "n_id ` set (g_nodes g) = stem ` fst ` set (selected d)
           \<union> (\<lambda>m. error_id (norm_key m)) ` set (all_captures (selected d))"
    using keys by simp
qed

lemma run_of_letters_less:
  fixes x c :: nat
  assumes "c < x"
  shows "i < j \<Longrightarrow> replicate i x @ c # r < replicate j x @ c # r"
proof (induction i arbitrary: j)
  case 0
  then obtain j' where "j = Suc j'" by (cases j) auto
  with assms show ?case by simp
next
  case (Suc i)
  then obtain j' where "j = Suc j'" "i < j'" by (cases j) auto
  with Suc.IH [of j'] show ?case by simp
qed

lemma insort_key_last: "\<forall>y \<in> set ys. f y < f x \<Longrightarrow> insort_key f x ys = ys @ [x]"
  by (induction ys) auto

lemma sort_key_rev_strict: "sorted_wrt (<) (map f xs) \<Longrightarrow> sort_key f (rev xs) = xs"
proof (induction xs rule: rev_induct)
  case Nil
  then show ?case by simp
next
  case (snoc x xs)
  from snoc.prems have "sorted_wrt (<) (map f xs)" and less: "\<forall>y \<in> set xs. f y < f x"
    by (auto simp: sorted_wrt_append)
  with snoc.IH have "sort_key f (rev xs) = xs" by blast
  then have "sort_key f (rev (xs @ [x])) = insort_key f x xs"
    by (simp add: sort_key_def)
  with less show ?case by (simp add: insort_key_last)
qed

lemma big_names_sorted: "sorted_wrt (<) (map big_name [a..<b])"
proof -
  have "big_name i < big_name j" if "i < j" for i j :: nat
    using run_of_letters_less [of 46 97 "Suc i" "Suc j" "u ''log''"] that
    by (simp add: u_def big_name_def)
  then show ?thesis
    by (simp add: sorted_wrt_map sorted_wrt_iff_nth_less)
qed

lemma big_glob: "glob_log big_dir = rev (map (\<lambda>i. (big_name i, big_entry i)) [0..<202])"
proof -
  have "is_log (big_name i)" for i
    by (simp add: is_log_def u_def big_name_def)
  then show ?thesis by (simp add: big_dir_def glob_log_def rev_map)
qed

lemma big_selected: "selected big_dir = map (\<lambda>i. (big_name i, Readable [])) [2..<202]"
proof -
  have "sorted_wrt (<) (map fst (map (\<lambda>i. (big_name i, big_entry i)) [0..<202]))"
    using big_names_sorted [of 0 202] by (simp add: o_def)
  then have "sort_key fst (glob_log big_dir) = map (\<lambda>i. (big_name i, big_entry i)) [0..<202]"
    unfolding big_glob by (rule sort_key_rev_strict)
  then have "selected big_dir = drop 2 (map (\<lambda>i. (big_name i, big_entry i)) [0..<202])"
    by (simp add: selected_def last_n_def)
  also have "\<dots> = map (\<lambda>i. (big_name i, big_entry i)) (drop 2 [0..<202])"
    by (simp only: drop_map)
  also have "drop 2 [0..<202] = [2..<202]" by (simp only: drop_upt add_0)
  also have "map (\<lambda>i. (big_name i, big_entry i)) [2..<202]
      = map (\<lambda>i. (big_name i, Readable [])) [2..<202]"
  proof (rule map_cong [OF refl])
    fix i :: nat assume "i \<in> set [2..<202]"
    then have "2 \<le> i" by (simp only: set_upt atLeastLessThan_iff)
    then show "(big_name i, big_entry i) = (big_name i, Readable [])" by (simp add: big_entry_def)
  qed
  finally show ?thesis .
qed

lemma rfind_absent: "c \<notin> set xs \<Longrightarrow> rfind c xs = - 1"
  by (induction xs) (simp_all add: Let_def)

lemma rfind_last: "c \<notin> set ys \<Longrightarrow> rfind c (xs @ c # ys) = int (length xs)"
  by (induction xs) (simp_all add: Let_def rfind_absent)

lemma big_stem: "stem (big_name i) = replicate (Suc i) 97"
proof -
  have n: "big_name i = replicate (Suc i) 97 @ 46 # u ''log''" by (simp add: big_name_def u_def)
  have r: "rfind 46 (big_name i) = int (length (replicate (Suc i) (97::nat)))"
    unfolding n by (rule rfind_last) (simp add: u_def)
  have "take (Suc i) (big_name i) = replicate (Suc i) 97" unfolding n by simp
  with r show ?thesis by (simp add: stem_def Let_def n u_def del: replicate.simps)
qed

lemma selected_idem: "selected (Some (selected d)) = selected d"
proof -
  have "set (selected d) \<subseteq> set (glob_log d)"
    by (auto simp: selected_def last_n_def dest: in_set_dropD)
  then have "\<forall>p \<in> set (selected d). is_log (fst p)"
    by (cases d) (auto simp: glob_log_def)
  then have "glob_log (Some (selected d)) = selected d"
    by (auto simp: glob_log_def filter_id_conv)
  moreover have "sort_key fst (selected d) = selected d"
    by (rule sort_key_id_if_sorted) (rule selected_sorted)
  moreover have "length (selected d) \<le> 200" by (simp add: selected_length)
  ultimately show ?thesis by (simp add: selected_def [of "Some (selected d)"] last_n_def)
qed

lemma memory_graph_selected: "selected d = selected d' \<Longrightarrow> memory_graph d = memory_graph d'"
  by (simp add: memory_graph_def)

lemma run_total:
  assumes "\<forall>p \<in> set (selected d). snd p \<noteq> Unreadable"
  shows "\<exists>g. memory_graph d = Inr (g, 0)
           \<and> g_edges g = concat (map file_edges (selected d))
           \<and> n_id ` set (g_nodes g) = stem ` fst ` set (selected d)
                \<union> (\<lambda>m. error_id (norm_key m)) ` set (all_captures (selected d))"
proof -
  from process_files_total [OF assms] obtain st' where
    "process_files (selected d) ([], []) = Inr st'" by blast
  then obtain g where g: "memory_graph d = Inr (g, 0)" by (cases st') (simp add: memory_graph_def)
  from run_graph [OF g] g show ?thesis by blast
qed

lemma run_readable:
  assumes "memory_graph d = Inr (g, rc)"
  shows "\<forall>p \<in> set (selected d). snd p \<noteq> Unreadable" "rc = 0"
proof -
  from assms obtain st' where pf: "process_files (selected d) ([], []) = Inr st'" and rc: "rc = 0"
    by (auto simp: memory_graph_def split: sum.splits)
  from process_files_readable [OF pf] show "\<forall>p \<in> set (selected d). snd p \<noteq> Unreadable" .
  from rc show "rc = 0" .
qed

text \<open>
  Claim C3. The builder scans the last 200 of the entries named \<^verbatim>\<open>*.log\<close>, sorted by
  name: the selection is sorted, holds every log when there are at most 200, and is
  otherwise the 200 last of the sorted list, every log left out sorting at or before every
  log selected. The run reads the selected logs, in that order, and no other entry. It
  returns a graph exactly when every selected log can be read, whatever the other entries
  are; the edges of the graph are those of the selected logs in that order, and the node
  ids are their stems and the ids of their errors. The result is that of a run on a
  directory that holds the selected logs alone, so two directories with the same selection
  give the same result.
\<close>

theorem window_selection:
  "selected d = last_n 200 (sort_key fst (glob_log d))
   \<and> set (glob_log (Some es)) = {p \<in> set es. is_log (fst p)}
   \<and> sorted (map fst (selected d))
   \<and> length (selected d) = min 200 (length (glob_log d))
   \<and> (length (glob_log d) \<le> 200 \<longrightarrow> selected d = sort_key fst (glob_log d))
   \<and> (\<exists>older. sort_key fst (glob_log d) = older @ selected d
         \<and> length older = length (glob_log d) - 200
         \<and> (\<forall>q \<in> set older. \<forall>p \<in> set (selected d). fst q \<le> fst p))
   \<and> (memory_graph d = Inr (g, rc) \<longrightarrow>
         (\<forall>p \<in> set (selected d). snd p \<noteq> Unreadable) \<and> rc = 0
         \<and> g_edges g = concat (map file_edges (selected d))
         \<and> n_id ` set (g_nodes g) = stem ` fst ` set (selected d)
              \<union> (\<lambda>m. error_id (norm_key m)) ` set (all_captures (selected d)))
   \<and> ((\<forall>p \<in> set (selected d). snd p \<noteq> Unreadable) \<longrightarrow>
         (\<exists>g'. memory_graph d = Inr (g', 0)
            \<and> g_edges g' = concat (map file_edges (selected d))
            \<and> n_id ` set (g_nodes g') = stem ` fst ` set (selected d)
                 \<union> (\<lambda>m. error_id (norm_key m)) ` set (all_captures (selected d))))
   \<and> memory_graph d = memory_graph (Some (selected d))
   \<and> (selected d = selected d' \<longrightarrow> memory_graph d = memory_graph d')"
proof -
  have "\<exists>older. sort_key fst (glob_log d) = older @ selected d
         \<and> length older = length (glob_log d) - 200
         \<and> (\<forall>q \<in> set older. \<forall>p \<in> set (selected d). fst q \<le> fst p)"
    using selected_split [of d] older_before [of _ d]
    by (intro exI [of _ "take (length (glob_log d) - 200) (sort_key fst (glob_log d))"]) auto
  moreover have "memory_graph d = memory_graph (Some (selected d))"
    by (rule memory_graph_selected) (simp add: selected_idem)
  moreover have "memory_graph d = Inr (g, rc) \<longrightarrow>
         (\<forall>p \<in> set (selected d). snd p \<noteq> Unreadable) \<and> rc = 0
         \<and> g_edges g = concat (map file_edges (selected d))
         \<and> n_id ` set (g_nodes g) = stem ` fst ` set (selected d)
              \<union> (\<lambda>m. error_id (norm_key m)) ` set (all_captures (selected d))"
    using run_graph [of d g rc] run_readable [of d g rc] by blast
  moreover have "(\<forall>p \<in> set (selected d). snd p \<noteq> Unreadable) \<longrightarrow>
         (\<exists>g'. memory_graph d = Inr (g', 0)
            \<and> g_edges g' = concat (map file_edges (selected d))
            \<and> n_id ` set (g_nodes g') = stem ` fst ` set (selected d)
                 \<union> (\<lambda>m. error_id (norm_key m)) ` set (all_captures (selected d)))"
    using run_total [of d] by blast
  moreover have "selected d = selected d' \<longrightarrow> memory_graph d = memory_graph d'"
    using memory_graph_selected [of d d'] by blast
  moreover have "selected d = last_n 200 (sort_key fst (glob_log d))" by (simp add: selected_def)
  moreover have "length (glob_log d) \<le> 200 \<longrightarrow> selected d = sort_key fst (glob_log d)"
    using selected_all [of d] by blast
  ultimately show ?thesis
    using selected_sorted [of d] selected_length [of d] glob_log_set(1) [of es]
    by blast
qed

theorem window_selection_witness:
  "length (glob_log example_dir) = 2
   \<and> selected example_dir = sort_key fst (glob_log example_dir)
   \<and> map fst (selected example_dir) = [u ''a.log'', u ''b.log'']
   \<and> memory_graph example_dir = Inr (example_graph, 0)
   \<and> length (glob_log big_dir) = 202
   \<and> (u ''a.log'', Unreadable) \<in> set (glob_log big_dir)
   \<and> (u ''aa.log'', Readable (ascii ''ERROR 09:00 message=old code=E0'')) \<in> set (glob_log big_dir)
   \<and> captures (Readable (ascii ''ERROR 09:00 message=old code=E0'')) = [u ''old'']
   \<and> selected big_dir = map (\<lambda>i. (big_name i, Readable [])) [2..<202]
   \<and> (\<exists>g. memory_graph big_dir = Inr (g, 0) \<and> g_edges g = []
         \<and> n_id ` set (g_nodes g) = (\<lambda>i. replicate (Suc i) 97) ` {2..<202})"
proof -
  have len: "length (glob_log example_dir) = 2"
    by (simp add: example_dir_def glob_log_def is_log_def u_def)
  from window_selection [of example_dir "[]" "example_graph" 0 example_dir]
  have "length (glob_log example_dir) \<le> 200 \<longrightarrow>
      selected example_dir = sort_key fst (glob_log example_dir)"
    by (elim conjE)
  with len have all: "selected example_dir = sort_key fst (glob_log example_dir)" by simp
  have names: "map fst (selected example_dir) = [u ''a.log'', u ''b.log'']"
    by (simp add: example_selected)
  have big: "length (glob_log big_dir) = 202" by (simp add: big_glob)
  have "(big_name 0, big_entry 0) \<in> set (glob_log big_dir)"
    unfolding big_glob set_rev set_map set_upt by (rule image_eqI [of _ _ 0]) simp_all
  then have a: "(u ''a.log'', Unreadable) \<in> set (glob_log big_dir)"
    by (simp add: big_name_def big_entry_def u_def)
  have "(big_name 1, big_entry 1) \<in> set (glob_log big_dir)"
    unfolding big_glob set_rev set_map set_upt by (rule image_eqI [of _ _ 1]) simp_all
  then have aa: "(u ''aa.log'', Readable (ascii ''ERROR 09:00 message=old code=E0''))
      \<in> set (glob_log big_dir)"
    by (simp add: big_name_def big_entry_def u_def)
  have old: "captures (Readable (ascii ''ERROR 09:00 message=old code=E0'')) = [u ''old'']"
    by (simp add: captures_def ev)
  have none: "captures (Readable []) = []"
    by (simp add: captures_def ev)
  have readable: "\<forall>p \<in> set (selected big_dir). snd p \<noteq> Unreadable"
    unfolding big_selected by (simp del: upt_rec_numeral)
  have edges: "concat (map file_edges (selected big_dir)) = []"
    unfolding big_selected by (simp add: file_edges_def none del: upt_rec_numeral)
  have caps: "all_captures (selected big_dir) = []"
    unfolding big_selected by (simp add: all_captures_def none del: upt_rec_numeral)
  have stems: "stem ` fst ` set (selected big_dir) = (\<lambda>i. replicate (Suc i) 97) ` {2..<202}"
    unfolding big_selected by (simp add: image_image big_stem del: upt_rec_numeral replicate.simps)
  from window_selection [of big_dir "[]" "example_graph" 0 big_dir]
  have "(\<forall>p \<in> set (selected big_dir). snd p \<noteq> Unreadable) \<longrightarrow>
         (\<exists>g'. memory_graph big_dir = Inr (g', 0)
            \<and> g_edges g' = concat (map file_edges (selected big_dir))
            \<and> n_id ` set (g_nodes g') = stem ` fst ` set (selected big_dir)
                 \<union> (\<lambda>m. error_id (norm_key m)) ` set (all_captures (selected big_dir)))"
    by (elim conjE)
  with readable have "\<exists>g'. memory_graph big_dir = Inr (g', 0)
            \<and> g_edges g' = concat (map file_edges (selected big_dir))
            \<and> n_id ` set (g_nodes g') = stem ` fst ` set (selected big_dir)
                 \<union> (\<lambda>m. error_id (norm_key m)) ` set (all_captures (selected big_dir))"
    by (rule rev_mp)
  then have run: "\<exists>g. memory_graph big_dir = Inr (g, 0) \<and> g_edges g = []
         \<and> n_id ` set (g_nodes g) = (\<lambda>i. replicate (Suc i) 97) ` {2..<202}"
    unfolding edges caps stems by (simp del: upt_rec_numeral)
  show ?thesis
    by (intro conjI) (rule len all names example_run big a aa old big_selected run)+
qed

lemma scan_empty: "scan_rules rules [] (0, []) = (0, [])"
  by (simp add: rules_def runbook_flags_def search.simps)

lemma process_files_step:
  "snd p \<noteq> Unreadable \<Longrightarrow>
   process_files (p # ps) st = process_files ps (file_step (stem (fst p)) (captures (snd p)) st)"
proof -
  obtain name e ns es where "p = (name, e)" "st = (ns, es)" by (cases p, cases st) auto
  then show "snd p \<noteq> Unreadable \<Longrightarrow> ?thesis"
    by (cases e) (simp_all add: read_text_def Let_def file_step_def captures_def)
qed

lemma process_files_stop:
  "snd p = Unreadable \<Longrightarrow> process_files (p # ps) st = Inl (OSError (fst p))"
  by (cases p, cases st) (simp add: read_text_def)

lemma process_files_Inl:
  "\<exists>p \<in> set ps. snd p = Unreadable \<Longrightarrow>
   \<exists>p \<in> set ps. snd p = Unreadable \<and> process_files ps st = Inl (OSError (fst p))"
proof (induction ps arbitrary: st)
  case Nil
  then show ?case by simp
next
  case (Cons q ps)
  show ?case
  proof (cases "snd q = Unreadable")
    case True
    then show ?thesis by (simp add: process_files_stop)
  next
    case False
    with Cons.prems have "\<exists>p \<in> set ps. snd p = Unreadable" by auto
    from Cons.IH [OF this, of "file_step (stem (fst q)) (captures (snd q)) st"] False
    show ?thesis by (auto simp: process_files_step)
  qed
qed

lemma process_files_first_unreadable:
  "\<forall>p \<in> set ps. snd p \<noteq> Unreadable \<Longrightarrow> snd q = Unreadable \<Longrightarrow>
   process_files (ps @ q # qs) st = Inl (OSError (fst q))"
  by (induction ps arbitrary: st) (simp_all add: process_files_stop process_files_step)

lemma decode_strict_ignore: "decode_strict bs = Some t \<Longrightarrow> decode_ignore bs = t"
proof (induction bs arbitrary: t rule: decode_strict.induct)
  case (1 bs)
  show ?case
  proof (cases "bs = []")
    case True
    with "1.prems" show ?thesis by (simp add: decode_strict.simps decode_ignore.simps)
  next
    case False
    with "1.prems" obtain c r t' where nxt: "utf8_next bs = Some (c, r)"
      and rest: "decode_strict r = Some t'" and t: "t = c # t'"
      by (subst (asm) decode_strict.simps) (auto split: option.splits)
    from "1.IH" [OF False nxt refl rest] have "decode_ignore r = t'" .
    with False nxt t show ?thesis by (subst decode_ignore.simps) simp
  qed
qed

lemma decode_ignore_skip: "utf8_next bs = None \<Longrightarrow> decode_ignore bs = decode_ignore (tl bs)"
  by (subst decode_ignore.simps) (simp add: decode_ignore.simps [of "[]"])

text \<open>
  Claim C7, as the code has it. \<^verbatim>\<open>runbook\<close> checks that its log file exists: a missing file
  is reported as a failure with return value 1 and nothing is scanned, while an empty
  file is scanned and gives no match with return value 0. \<^verbatim>\<open>memory_graph\<close> has no such
  check: a log directory that is missing, or has no entry, gives the empty graph and
  return value 0.
\<close>

theorem absent_input:
  "runbook log_file None = Inr ([u ''FAIL: missing log file '' @ log_file], 1)
   \<and> runbook log_file (Some (Readable [])) = Inr ([u ''No known runbook signatures found.''], 0)
   \<and> memory_graph None = Inr (\<lparr>g_nodes = [], g_edges = []\<rparr>, 0)
   \<and> memory_graph (Some []) = Inr (\<lparr>g_nodes = [], g_edges = []\<rparr>, 0)"
  by (simp add: runbook_def read_text_def file_text_def decode_ignore.simps scan_empty memory_graph_def
      selected_def last_n_def glob_log_def)

theorem absent_input_witness:
  "runbook (u ''session.log'') None = Inr ([u ''FAIL: missing log file session.log''], 1)
   \<and> runbook (u ''session.log'') (Some (Readable [])) = Inr ([u ''No known runbook signatures found.''], 0)"
  using absent_input [of "u ''session.log''"] by (simp add: u_def)

text \<open>
  Claim C7 as stated fails in both halves: the matcher fails on a missing file, and the
  builder succeeds on a missing directory.
\<close>

theorem missing_inputs_swapped:
  "runbook (u ''session.log'') None = Inr ([u ''FAIL: missing log file session.log''], 1)
   \<and> memory_graph None = Inr (\<lparr>g_nodes = [], g_edges = []\<rparr>, 0)"
  by (simp add: runbook_def memory_graph_def selected_def last_n_def glob_log_def u_def)

text \<open>
  Claim C8, as the code has it. Bytes that are no UTF-8 never fail a read: the text of a
  readable file is its bytes decoded with the ill-formed ones left out and the line ends
  then translated, which is the strict decoding with its line ends translated wherever the
  strict decoding exists. So a run whose selected logs can all be read returns a graph. A
  selected log that cannot be read is not skipped: the run ends at the first such log, with
  the error of that read, and returns no graph.
\<close>

theorem read_failures:
  "((\<forall>p \<in> set (selected d). snd p \<noteq> Unreadable) \<longrightarrow> (\<exists>g. memory_graph d = Inr (g, 0)))
   \<and> (selected d = ps @ q # qs \<and> (\<forall>p \<in> set ps. snd p \<noteq> Unreadable) \<and> snd q = Unreadable \<longrightarrow>
        memory_graph d = Inl (OSError (fst q)))
   \<and> ((\<exists>p \<in> set (selected d). snd p = Unreadable) \<longrightarrow>
        (\<exists>p \<in> set (selected d). snd p = Unreadable \<and> memory_graph d = Inl (OSError (fst p))))
   \<and> read_text path (Readable bs) = Inr (universal_newlines (decode_ignore bs))
   \<and> (decode_strict bs = Some t \<longrightarrow> read_text path (Readable bs) = Inr (universal_newlines t))
   \<and> (utf8_next bs = None \<longrightarrow> read_text path (Readable bs) = read_text path (Readable (tl bs)))"
proof -
  have "\<exists>g. memory_graph d = Inr (g, 0)" if "\<forall>p \<in> set (selected d). snd p \<noteq> Unreadable"
  proof -
    from process_files_total [OF that] obtain st' where
      "process_files (selected d) ([], []) = Inr st'" by blast
    then show ?thesis by (cases st') (simp add: memory_graph_def)
  qed
  moreover have "memory_graph d = Inl (OSError (fst q))"
    if "selected d = ps @ q # qs \<and> (\<forall>p \<in> set ps. snd p \<noteq> Unreadable) \<and> snd q = Unreadable"
    using that process_files_first_unreadable [of ps q qs "([], [])"]
    by (simp add: memory_graph_def)
  moreover have "\<exists>p \<in> set (selected d). snd p = Unreadable \<and> memory_graph d = Inl (OSError (fst p))"
    if "\<exists>p \<in> set (selected d). snd p = Unreadable"
  proof -
    from process_files_Inl [OF that, of "([], [])"] obtain p where "p \<in> set (selected d)"
      "snd p = Unreadable" "process_files (selected d) ([], []) = Inl (OSError (fst p))" by blast
    then show ?thesis by (auto simp: memory_graph_def)
  qed
  ultimately show ?thesis
    using decode_strict_ignore [of bs t] decode_ignore_skip [of bs]
    by (simp add: read_text_def file_text_def)
qed

theorem read_failures_witness:
  "list_all (\<lambda>p. snd p \<noteq> Unreadable) (selected example_dir)
   \<and> (\<exists>g. memory_graph example_dir = Inr (g, 0))
   \<and> decode_strict [0x41, 0x0D, 0x0A, 0x42, 0x0D] = Some [0x41, 13, 10, 0x42, 13]
   \<and> read_text (u ''a.log'') (Readable [0x41, 0x0D, 0x0A, 0x42, 0x0D]) = Inr [0x41, 10, 0x42, 10]
   \<and> utf8_next [0xFF, 0x0D, 0xC3, 0x28] = None
   \<and> read_text (u ''a.log'') (Readable [0xFF, 0x0D, 0xC3, 0x28]) = Inr [10, 0x28]
   \<and> selected broken_dir =
       [(u ''a.log'', Readable (ascii ''ERROR x message=disk full code=E1''))]
         @ (u ''b.log'', Unreadable) # []
   \<and> memory_graph broken_dir = Inl (OSError (u ''b.log''))"
proof -
  have sel: "selected broken_dir =
       [(u ''a.log'', Readable (ascii ''ERROR x message=disk full code=E1''))]
         @ (u ''b.log'', Unreadable) # []"
    by (simp add: broken_dir_def ev)
  have "selected broken_dir =
       [(u ''a.log'', Readable (ascii ''ERROR x message=disk full code=E1''))]
         @ (u ''b.log'', Unreadable) # []
      \<and> (\<forall>p \<in> set [(u ''a.log'', Readable (ascii ''ERROR x message=disk full code=E1''))].
            snd p \<noteq> Unreadable)
      \<and> snd (u ''b.log'', Unreadable) = Unreadable"
    using sel by simp
  from mp [OF read_failures [of broken_dir
        "[(u ''a.log'', Readable (ascii ''ERROR x message=disk full code=E1''))]"
        "(u ''b.log'', Unreadable)" "[]", THEN conjunct2, THEN conjunct1] this]
  have abort: "memory_graph broken_dir = Inl (OSError (u ''b.log''))" by simp
  have r: "\<forall>p \<in> set (selected example_dir). snd p \<noteq> Unreadable"
    unfolding example_selected by simp
  with read_failures [of example_dir] have "\<exists>g. memory_graph example_dir = Inr (g, 0)" by blast
  moreover have s: "decode_strict [0x41, 0x0D, 0x0A, 0x42, 0x0D] = Some [0x41, 13, 10, 0x42, 13]"
    by (simp add: decode_strict.simps)
  moreover have "read_text (u ''a.log'') (Readable [0x41, 0x0D, 0x0A, 0x42, 0x0D]) = Inr [0x41, 10, 0x42, 10]"
  proof -
    from s read_failures [of example_dir "[]" "(u ''a.log'', Unreadable)" "[]" "u ''a.log''"
        "[0x41, 0x0D, 0x0A, 0x42, 0x0D]" "[0x41, 13, 10, 0x42, 13]"]
    have "read_text (u ''a.log'') (Readable [0x41, 0x0D, 0x0A, 0x42, 0x0D])
        = Inr (universal_newlines [0x41, 13, 10, 0x42, 13])" by blast
    then show ?thesis by simp
  qed
  moreover have n: "utf8_next [0xFF, 0x0D, 0xC3, 0x28] = None" by simp
  moreover have "read_text (u ''a.log'') (Readable [0xFF, 0x0D, 0xC3, 0x28]) = Inr [10, 0x28]"
  proof -
    from n read_failures [of example_dir "[]" "(u ''a.log'', Unreadable)" "[]" "u ''a.log''"
        "[0xFF, 0x0D, 0xC3, 0x28]" "[]"]
    have "read_text (u ''a.log'') (Readable [0xFF, 0x0D, 0xC3, 0x28])
        = read_text (u ''a.log'') (Readable (tl [0xFF, 0x0D, 0xC3, 0x28]))" by blast
    then show ?thesis
      by (simp add: read_text_def file_text_def decode_ignore.simps cont_def)
  qed
  ultimately show ?thesis using r sel abort by (simp add: list_all_iff)
qed

text \<open>
  Claim C8 as stated fails: \<^verbatim>\<open>a.log\<close> holds an error, \<^verbatim>\<open>b.log\<close> cannot be read, and the
  run ends with the error of the read; the error of \<^verbatim>\<open>a.log\<close> is in no graph.
\<close>

theorem unreadable_file_aborts:
  "memory_graph broken_dir = Inl (OSError (u ''b.log''))
   \<and> captures (Readable (ascii ''ERROR x message=disk full code=E1'')) = [u ''disk full'']"
  by (simp add: broken_dir_def captures_def ev)

section \<open>Error extraction\<close>


















































section \<open>Normalisation of the captured message\<close>

lemma list_all_replicate_iff: "list_all P (replicate n x) \<longleftrightarrow> n = 0 \<or> P x"
  by (induction n) auto

lemma greedy_suffixes_fail:
  assumes "\<And>w s'. cs = w @ s' \<Longrightarrow> k s' = []"
  shows "concat (map k (greedy P cs)) = []"
  using assms by (auto simp: greedy_iff)

lemma star_skip:
  assumes "\<And>w s'. tl s = w @ s' \<Longrightarrow> k s' = []"
  shows "concat (map k (greedy P s)) = k s"
proof (cases s)
  case Nil
  then show ?thesis by simp
next
  case (Cons c cs)
  with assms have "concat (map k (greedy P cs)) = []"
    by (intro greedy_suffixes_fail) simp
  with Cons show ?thesis by simp
qed

lemma lit_fails_at:
  "s' = [] \<or> \<not> atom_ok f (Lit (of_char c0)) (hd s') \<Longrightarrow> rmatch f (Seq (lit (c0 # p)) r) (g, s') = []"
  by (cases s') auto

text \<open>A greedy star before a literal that no later character can start: only the empty
  repetition is left.\<close>

lemma star_first:
  assumes "list_all (\<lambda>x. \<not> atom_ok f (Lit (of_char c0)) x) (tl s)"
  shows "rmatch f (Seq (Star a) (Seq (lit (c0 # p)) r)) (g, s) = rmatch f (Seq (lit (c0 # p)) r) (g, s)"
proof -
  have "rmatch f (Seq (lit (c0 # p)) r) (g, s') = []" if "tl s = w @ s'" for w s'
  proof -
    from that assms have "list_all (\<lambda>x. \<not> atom_ok f (Lit (of_char c0)) x) s'" by simp
    then have "s' = [] \<or> \<not> atom_ok f (Lit (of_char c0)) (hd s')" by (cases s') auto
    then show ?thesis by (rule lit_fails_at)
  qed
  then have "concat (map (\<lambda>s'. rmatch f (Seq (lit (c0 # p)) r) (g, s')) (greedy (atom_ok f a) s))
      = rmatch f (Seq (lit (c0 # p)) r) (g, s)"
    by (rule star_skip)
  then show ?thesis by (simp add: o_def)
qed

text \<open>The lazy group: the shortest capture after which the rest of the pattern matches
  comes first.\<close>

lemma rev_greedy: "rev (greedy P s) = s # (case s of [] \<Rightarrow> [] | c # cs \<Rightarrow> if P c then rev (greedy P cs) else [])"
  by (cases s) auto

lemma lazy_alternatives:
  assumes "list_all P w"
    and "\<And>w1 w2. w = w1 @ w2 \<Longrightarrow> w2 \<noteq> [] \<Longrightarrow> k (pre @ w1) (w2 @ s2) = []"
  shows "\<exists>more. concat (map (\<lambda>s'. k (take (length (pre @ w @ s2) - length s') (pre @ w @ s2)) s')
            (rev (greedy P (w @ s2)))) = k (pre @ w) s2 @ more"
  using assms
proof (induction w arbitrary: pre)
  case Nil
  show ?case by (subst rev_greedy) simp
next
  case (Cons c w)
  have here: "k pre (c # w @ s2) = []"
    using Cons.prems(2) [of "[]" "c # w"] by simp
  have "\<exists>more. concat (map (\<lambda>s'. k (take (length ((pre @ [c]) @ w @ s2) - length s') ((pre @ [c]) @ w @ s2)) s')
            (rev (greedy P (w @ s2)))) = k ((pre @ [c]) @ w) s2 @ more"
  proof (rule Cons.IH)
    show "list_all P w" using Cons.prems(1) by simp
    show "k ((pre @ [c]) @ w1) (w2 @ s2) = []" if "w = w1 @ w2" "w2 \<noteq> []" for w1 w2
      using Cons.prems(2) [of "c # w1" w2] that by simp
  qed
  then obtain more where
    "concat (map (\<lambda>s'. k (take (length (pre @ c # w @ s2) - length s') (pre @ c # w @ s2)) s')
            (rev (greedy P (w @ s2)))) = k (pre @ c # w) s2 @ more" by auto
  with here Cons.prems(1) show ?case
    by (subst rev_greedy) simp
qed

lemma lazy_first:
  assumes "w \<noteq> []" "list_all (atom_ok f a) w"
    and "\<And>w1 w2. w = w1 @ w2 \<Longrightarrow> w1 \<noteq> [] \<Longrightarrow> w2 \<noteq> [] \<Longrightarrow> rmatch f r (Some w1, w2 @ s2) = []"
  shows "\<exists>more. rmatch f (Seq (Group (PlusLazy a)) r) (g, w @ s2) = rmatch f r (Some w, s2) @ more"
proof -
  from assms(1) obtain c w' where w: "w = c # w'" by (cases w) auto
  with assms(2) have c: "atom_ok f a c" and w': "list_all (atom_ok f a) w'" by simp_all
  have "\<exists>more. concat (map (\<lambda>s'. rmatch f r (Some (take (length ([c] @ w' @ s2) - length s') ([c] @ w' @ s2)), s'))
            (rev (greedy (atom_ok f a) (w' @ s2)))) = rmatch f r (Some ([c] @ w'), s2) @ more"
  proof (rule lazy_alternatives [where k = "\<lambda>m s'. rmatch f r (Some m, s')"])
    show "list_all (atom_ok f a) w'" by (rule w')
    show "rmatch f r (Some ([c] @ w1), w2 @ s2) = []" if "w' = w1 @ w2" "w2 \<noteq> []" for w1 w2
      using assms(3) [of "c # w1" w2] that w by simp
  qed
  then show ?thesis
    using c by (simp add: w o_def case_prod_unfold)
qed

lemma plus_space_fails: "\<not> is_space x \<Longrightarrow> rmatch f (Seq (Plus Space) r) (g, x # xs) = []"
  by simp

lemma replicate_split:
  assumes "replicate n x = a @ b" "b \<noteq> []"
  shows "\<exists>k. b = x # replicate k x"
proof -
  from assms(1) have "b = drop (length a) (replicate n x)"
    by (metis append_eq_conv_conj)
  then have b: "b = replicate (n - length a) x" by simp
  with assms(2) obtain k where "n - length a = Suc k" by (cases "n - length a") auto
  with b show ?thesis by auto
qed

lemma r199: "replicate 199 (97::nat) = 97 # replicate 198 97"
proof -
  have "(199::nat) = Suc 198" by simp
  then show ?thesis by (simp only: replicate_Suc)
qed

lemma b1: "rmatch err_flags (Seq (Plus Space) (Alt (lit ''code='') (Alt (lit ''fatal'') Dollar)))
    (Some w1, (32 # replicate 199 97) @ u '' code='') = []"
  unfolding r199 by (simp add: is_space_def err_flags_def case_variants_def u_def)

lemma padded_fails:
  assumes "32 # 32 # replicate 199 97 = w1 @ w2" "w1 \<noteq> []" "w2 \<noteq> []"
  shows "rmatch err_flags (Seq (Plus Space) (Alt (lit ''code='') (Alt (lit ''fatal'') Dollar)))
    (Some w1, w2 @ u '' code='') = []"
proof -
  from assms(1,2) obtain w1' where w1: "w1 = 32 # w1'" and rest: "32 # replicate 199 97 = w1' @ w2"
    by (cases w1) auto
  show ?thesis
  proof (cases w1')
    case Nil
    with rest have "w2 = 32 # replicate 199 97" by simp
    then show ?thesis by (simp only: b1)
  next
    case (Cons c w1'')
    with rest have "replicate 199 97 = w1'' @ w2" by simp
    from replicate_split [OF this assms(3)] obtain k where "w2 = 97 # replicate k 97" by blast
    then show ?thesis by (simp add: is_space_def)
  qed
qed

lemma padded_lazy:
  "\<exists>more. rmatch err_flags (Seq (Group (PlusLazy Dot))
        (Seq (Plus Space) (Alt (lit ''code='') (Alt (lit ''fatal'') Dollar))))
      (None, (32 # 32 # replicate 199 97) @ u '' code='')
    = (Some (32 # 32 # replicate 199 97), []) # more"
proof -
  let ?tail = "Seq (Plus Space) (Alt (lit ''code='') (Alt (lit ''fatal'') Dollar))"
  have "\<exists>more. rmatch err_flags (Seq (Group (PlusLazy Dot)) ?tail)
      (None, (32 # 32 # replicate 199 97) @ u '' code='')
      = rmatch err_flags ?tail (Some (32 # 32 # replicate 199 97), u '' code='') @ more"
  proof (rule lazy_first)
    show "32 # 32 # replicate 199 (97::nat) \<noteq> []" by simp
    show "list_all (atom_ok err_flags Dot) (32 # 32 # replicate 199 97)"
      by (simp add: list_all_replicate_iff)
    show "rmatch err_flags ?tail (Some w1, w2 @ u '' code='') = []"
      if "32 # 32 # replicate 199 97 = w1 @ w2" "w1 \<noteq> []" "w2 \<noteq> []" for w1 w2
      using that by (rule padded_fails)
  qed
  moreover have "rmatch err_flags ?tail (Some (32 # 32 # replicate 199 97), u '' code='')
      = [(Some (32 # 32 # replicate 199 97), [])]"
    by (simp add: u_def is_space_def err_flags_def case_variants_def)
  ultimately show ?thesis by auto
qed

lemma padded_first_match:
  "\<exists>more. rmatch err_flags err_re (None, u ''ERROR message='' @ (32 # 32 # replicate 199 97) @ u '' code='')
     = (Some (32 # 32 # replicate 199 97), []) # more"
proof -
  let ?w = "32 # 32 # replicate 199 (97::nat)"
  let ?tail = "Seq (Plus Space) (Alt (lit ''code='') (Alt (lit ''fatal'') Dollar))"
  have "rmatch err_flags err_re (None, u ''ERROR message='' @ ?w @ u '' code='')
     = rmatch err_flags (Seq (Star Dot) (Seq (lit ''message='') (Seq (Group (PlusLazy Dot)) ?tail)))
       (None, u ''message='' @ ?w @ u '' code='')"
    by (simp add: err_re_def u_def err_flags_def case_variants_def is_space_def)
  also have "\<dots> = rmatch err_flags (Seq (lit ''message='') (Seq (Group (PlusLazy Dot)) ?tail))
       (None, u ''message='' @ ?w @ u '' code='')"
    by (rule star_first) (simp add: u_def err_flags_def case_variants_def list_all_replicate_iff)
  also have "\<dots> = rmatch err_flags (Seq (Group (PlusLazy Dot)) ?tail) (None, ?w @ u '' code='')"
    by (simp add: u_def err_flags_def case_variants_def)
  finally show ?thesis using padded_lazy by simp
qed

lemma node_for_id:
  assumes run: "memory_graph d = Inr (g, rc)" and m: "m \<in> set (all_captures (selected d))"
  shows "\<exists>v. filter (\<lambda>v. n_id v = error_id (norm_key m)) (g_nodes g) = [v]"
proof -
  from run_graph(2) [OF run] m have "error_id (norm_key m) \<in> n_id ` set (g_nodes g)" by blast
  then obtain v where v: "v \<in> set (g_nodes g)" "n_id v = error_id (norm_key m)" by auto
  from filter_unique [OF node_ids_distinct [OF run] v(1)] v(2) show ?thesis by auto
qed

text \<open>
  Claim C6, as the code has it. The key is the captured text trimmed and then cut to 200
  characters, so its length is the smaller of 200 and the length of the trimmed text: a
  capture that is 201 characters long after trimming has a key of length 200. Two captures
  whose trimmed texts agree on their first 200 characters have the same key and the same
  node id, and the graph has one node with that id.
\<close>

theorem norm_key_truncation:
  "norm_key m = take 200 (strip m)
   \<and> length (norm_key m) = min 200 (length (strip m))
   \<and> (length (strip m) = 201 \<longrightarrow> length (norm_key m) = 200)
   \<and> (take 200 (strip m1) = take 200 (strip m2) \<longrightarrow> error_id (norm_key m1) = error_id (norm_key m2))
   \<and> (memory_graph d = Inr (g, rc) \<and> m1 \<in> set (all_captures (selected d))
        \<and> take 200 (strip m1) = take 200 (strip m2) \<longrightarrow>
        (\<exists>v. filter (\<lambda>v. n_id v = error_id (norm_key m1)) (g_nodes g) = [v]
            \<and> filter (\<lambda>v. n_id v = error_id (norm_key m2)) (g_nodes g) = [v]))"
proof -
  have "\<exists>v. filter (\<lambda>v. n_id v = error_id (norm_key m1)) (g_nodes g) = [v]
            \<and> filter (\<lambda>v. n_id v = error_id (norm_key m2)) (g_nodes g) = [v]"
    if "memory_graph d = Inr (g, rc)" "m1 \<in> set (all_captures (selected d))"
      "take 200 (strip m1) = take 200 (strip m2)"
  proof -
    from that(3) have "norm_key m2 = norm_key m1" by (simp add: norm_key_def)
    with node_for_id [OF that(1,2)] show ?thesis by simp
  qed
  then show ?thesis by (auto simp: norm_key_def)
qed

theorem norm_key_truncation_witness:
  "length (strip (replicate 201 97)) = 201
   \<and> length (norm_key (replicate 201 97)) = 200
   \<and> norm_key (replicate 200 97 @ u ''X'') = norm_key (replicate 200 97 @ u ''Y'')"
proof -
  have r: "replicate 201 (97::nat) = 97 # replicate 200 97"
  proof -
    have "(201::nat) = Suc 200" by simp
    then show ?thesis by (simp only: replicate_Suc)
  qed
  have "dropWhile is_space (replicate 201 97) = replicate 201 97"
    unfolding r by (simp add: is_space_def)
  then have s: "strip (replicate 201 97) = replicate 201 97" by (simp add: strip_def)
  then have len: "length (strip (replicate 201 97)) = 201" by simp
  with norm_key_truncation [of "replicate 201 97"] have "length (norm_key (replicate 201 97)) = 200"
    by blast
  moreover have "strip (replicate 200 97 @ [c]) = replicate 200 97 @ [c]" if "\<not> is_space c" for c
  proof -
    have r200: "replicate 200 (97::nat) = 97 # replicate 199 97"
    proof -
      have "(200::nat) = Suc 199" by simp
      then show ?thesis by (simp only: replicate_Suc)
    qed
    have "dropWhile is_space (replicate 200 97 @ [c]) = replicate 200 97 @ [c]"
      unfolding r200 by (simp add: is_space_def)
    with that show ?thesis by (simp add: strip_def)
  qed
  then have "norm_key (replicate 200 97 @ u ''X'') = norm_key (replicate 200 97 @ u ''Y'')"
    by (simp add: norm_key_def u_def is_space_def)
  ultimately show ?thesis using len by blast
qed

text \<open>
  Claim C6 as stated fails for a capture with white space at its start: the pattern
  captures the 201 characters after \<^verbatim>\<open>message=\<close>, two spaces and 199 letters, and the key
  has length 199.
\<close>

theorem padded_capture_short_key:
  "findall err_flags err_re (u ''ERROR message=  '' @ replicate 199 97 @ u '' code='')
     = [u ''  '' @ replicate 199 97]
   \<and> length (u ''  '' @ replicate 199 97) = 201
   \<and> length (norm_key (u ''  '' @ replicate 199 97)) = 199"
proof -
  let ?w = "32 # 32 # replicate 199 (97::nat)"
  have input_eq: "u ''ERROR message=  '' @ replicate 199 97 @ u '' code=''
      = u ''ERROR message='' @ ?w @ u '' code=''" by (simp add: u_def)
  have w: "u ''  '' @ replicate 199 97 = ?w" by (simp add: u_def)
  from padded_first_match obtain more where
    "rmatch err_flags err_re (None, u ''ERROR message='' @ ?w @ u '' code='') = (Some ?w, []) # more"
    by blast
  then have "search err_flags err_re (u ''ERROR message='' @ ?w @ u '' code='') = Some (Some ?w, [])"
    by (subst search.simps) simp
  moreover have "findall err_flags err_re [] = []"
    by (simp add: findall.simps search.simps err_re_def)
  ultimately have "findall err_flags err_re (u ''ERROR message='' @ ?w @ u '' code='') = [?w]"
    by (subst findall.simps) (simp add: group_text_def u_def)
  moreover have "strip ?w = replicate 199 97"
  proof -
    have "dropWhile is_space ?w = replicate 199 97"
      unfolding r199 by (simp add: is_space_def)
    moreover have "dropWhile is_space (replicate 199 97) = replicate 199 97"
      unfolding r199 by (simp add: is_space_def)
    ultimately show ?thesis by (simp add: strip_def)
  qed
  ultimately show ?thesis unfolding input_eq w by (simp add: norm_key_def)
qed

end
